theory Spec2Isabelle
  imports Complex_Main "HOL-Library.Char_ord" "HOL-Library.List_Lexorder"
begin

section \<open>The web archiver of backend/server.js\<close>

text \<open>
  The crawler of \<^verbatim>\<open>src/backend/server.js\<close> is embedded function by function.
  JavaScript strings are \<^typ>\<open>string\<close> (a character stands for one code unit, and
  the order on strings is the lexicographic order on code units that
  \<^verbatim>\<open>Array.prototype.sort\<close> uses by default).

  A JavaScript number that is finite is a \<^typ>\<open>real\<close>; the comparisons the program
  makes (a set's size against the page budget, a number against zero) are exact on them.

  The program calls into Node's library and into the outside world. Neither is code of
  the repository, so both are parameters of the model:
  \<^item> \<open>node_lib\<close> holds the pure library functions (\<^verbatim>\<open>new URL\<close>, \<^verbatim>\<open>path.*\<close>,
    \<^verbatim>\<open>__dirname\<close>, and the language's conversions of strings and objects);
  \<^item> \<open>world\<close> holds what the network, the clock and the file system answer.
\<close>

subsection \<open>The library and the world\<close>

text \<open>The three properties of a WHATWG URL object that the program reads.\<close>

record url =
  url_href :: string
  url_hostname :: string
  url_pathname :: string

text \<open>
  A value that \<^verbatim>\<open>express.json()\<close> can put into a field of the request body. A number
  of a JSON text is finite; \<open>-0\<close> is the real number zero (both are falsy and not
  greater than zero).
\<close>

datatype json =
    JNull
  | JBool bool
  | JNumber real
  | JString string
  | JArray "json list"
  | JObject "(string \<times> json) list"

text \<open>
  \<open>new_URL L input base\<close> is \<^verbatim>\<open>new URL(input, base)\<close> (\<open>base = None\<close> for the
  one-argument call); \<open>None\<close> is the \<^verbatim>\<open>TypeError\<close> thrown on an invalid URL.
  \<open>StringToNumber\<close> is the language's conversion of a string to a number (\<open>None\<close>:
  the result is NaN) and \<open>object_toString\<close> the string an array or an object converts
  to.
\<close>

record node_lib =
  new_URL :: "string \<Rightarrow> string option \<Rightarrow> url option"
  path_extname :: "string \<Rightarrow> string"
  path_join :: "string list \<Rightarrow> string"
  path_relative :: "string \<Rightarrow> string \<Rightarrow> string"
  path_dirname :: "string \<Rightarrow> string"
  dirname_of_module :: string
  StringToNumber :: "string \<Rightarrow> real option"
  object_toString :: "json \<Rightarrow> string"

text \<open>
  A parsed document, as far as the program looks at it: the elements in document order,
  each with the selector it matches (\<^verbatim>\<open>a\<close>, \<^verbatim>\<open>link[rel="stylesheet"]\<close>,
  \<^verbatim>\<open>img\<close>, \<^verbatim>\<open>script\<close>, or none of them) and its attributes.
\<close>

datatype selector = Anchor | StylesheetLink | Img | Script | Other

record element =
  sel :: selector
  attrs :: "(string \<times> string) list"

type_synonym document = "element list"

text \<open>
  \<^item> \<open>get_page n u\<close>: the \<open>n\<close>-th page request of the session, for URL \<open>u\<close>
    (\<^verbatim>\<open>axios.get\<close> followed by \<^verbatim>\<open>cheerio.load\<close>); \<open>None\<close> when it throws.
    The request number is an argument because the network may answer the same URL
    differently at different times.
  \<^item> \<open>get_asset n i u\<close>: the asset request issued during page request \<open>n\<close> for the
    \<open>i\<close>-th element of the document; \<open>None\<close> when the promise rejects.
  \<^item> \<open>fs_ensureDir p\<close>, \<open>fs_writeFile p\<close>: whether the call on path \<open>p\<close> succeeds.
  \<^item> \<open>clock k\<close>: the \<open>k\<close>-th \<^verbatim>\<open>new Date().toISOString()\<close> of the session.
\<close>

record world =
  get_page :: "nat \<Rightarrow> string \<Rightarrow> document option"
  get_asset :: "nat \<Rightarrow> nat \<Rightarrow> string \<Rightarrow> string option"
  fs_ensureDir :: "string \<Rightarrow> bool"
  fs_writeFile :: "string \<Rightarrow> bool"
  clock :: "nat \<Rightarrow> string"

datatype error = TypeError | FilesystemFailure

subsection \<open>Strings, sets and attributes as JavaScript has them\<close>

definition startsWith :: "string \<Rightarrow> string \<Rightarrow> bool" where
  "startsWith s p = (take (length p) s = p)"

text \<open>A string-or-undefined value in a condition: undefined and the empty string are falsy.\<close>

fun truthy :: "string option \<Rightarrow> bool" where
  "truthy None = False"
| "truthy (Some s) = (s \<noteq> [])"

text \<open>\<^verbatim>\<open>s.split(c)[0]\<close>: the part before the first \<open>c\<close>.\<close>

definition split_first :: "char \<Rightarrow> string \<Rightarrow> string" where
  "split_first c s = takeWhile (\<lambda>x. x \<noteq> c) s"

text \<open>
  \<^verbatim>\<open>s.replace(/^\/|\/$/g, '')\<close>: every match is one slash, at index 0 (first
  alternative) or at the last index (second alternative); all matches are deleted.
\<close>

definition strip_slashes :: "string \<Rightarrow> string" where
  "strip_slashes s =
     map (\<lambda>i. s ! i)
       (filter (\<lambda>i. \<not> (s ! i = CHR ''/'' \<and> (i = 0 \<or> Suc i = length s))) [0..<length s])"

text \<open>\<^verbatim>\<open>/[<>:"/\\|?*]/g\<close> replaced by an underscore (0x22 is the double quote, 0x5C the backslash).\<close>

definition unsafe_char :: "char \<Rightarrow> bool" where
  "unsafe_char c = (c \<in> set [CHR ''<'', CHR ''>'', CHR '':'', CHR 0x22, CHR ''/'', CHR 0x5C,
                               CHR ''|'', CHR ''?'', CHR ''*''])"

definition sanitize :: "string \<Rightarrow> string" where
  "sanitize s = map (\<lambda>c. if unsafe_char c then CHR ''_'' else c) s"

text \<open>\<^verbatim>\<open>/[\/\?%*:|"<>]/g\<close> replaced by an underscore (the page identifier's class).\<close>

definition unsafe_id_char :: "char \<Rightarrow> bool" where
  "unsafe_id_char c = (c \<in> set [CHR ''/'', CHR ''?'', CHR ''%'', CHR ''*'', CHR '':'', CHR ''|'',
                                  CHR 0x22, CHR ''<'', CHR ''>''])"

definition sanitize_id :: "string \<Rightarrow> string" where
  "sanitize_id s = map (\<lambda>c. if unsafe_id_char c then CHR ''_'' else c) s"

text \<open>\<^verbatim>\<open>s.replace(/\\/g, '/')\<close> and \<^verbatim>\<open>s.replace(/:/g, '-')\<close>.\<close>

definition backslash_to_slash :: "string \<Rightarrow> string" where
  "backslash_to_slash s = map (\<lambda>c. if c = CHR 0x5C then CHR ''/'' else c) s"

definition colon_to_dash :: "string \<Rightarrow> string" where
  "colon_to_dash s = map (\<lambda>c. if c = CHR '':'' then CHR ''-'' else c) s"

text \<open>
  A JavaScript \<^verbatim>\<open>Set\<close> of strings is the list of its elements in insertion order;
  \<open>set_add\<close> is \<^verbatim>\<open>Set.prototype.add\<close>, \<open>Set_from\<close> is \<^verbatim>\<open>new Set(array)\<close>.
\<close>

definition set_add :: "string \<Rightarrow> string list \<Rightarrow> string list" where
  "set_add x xs = (if x \<in> set xs then xs else xs @ [x])"

definition Set_from :: "string list \<Rightarrow> string list" where
  "Set_from xs = foldl (\<lambda>acc x. set_add x acc) [] xs"

text \<open>\<^verbatim>\<open>Map.prototype.set\<close> on a map kept as the list of its entries in insertion order.\<close>

fun map_set :: "string \<Rightarrow> 'v \<Rightarrow> (string \<times> 'v) list \<Rightarrow> (string \<times> 'v) list" where
  "map_set k v [] = [(k, v)]"
| "map_set k v ((k', v') # m) = (if k' = k then (k, v) # m else (k', v') # map_set k v m)"

text \<open>\<^verbatim>\<open>el.attr(name)\<close>, \<^verbatim>\<open>el.attr(name, value)\<close> and \<^verbatim>\<open>el.removeAttr(name)\<close>.\<close>

definition attr :: "element \<Rightarrow> string \<Rightarrow> string option" where
  "attr el name = map_of (attrs el) name"

definition set_attr :: "element \<Rightarrow> string \<Rightarrow> string \<Rightarrow> element" where
  "set_attr el name v = el\<lparr>attrs := map_set name v (attrs el)\<rparr>"

definition removeAttr :: "element \<Rightarrow> string \<Rightarrow> element" where
  "removeAttr el name = el\<lparr>attrs := filter (\<lambda>kv. fst kv \<noteq> name) (attrs el)\<rparr>"

subsection \<open>getLocalFilePathForPage (server.js, lines 36-50)\<close>

definition getLocalFilePathForPage :: "node_lib \<Rightarrow> string \<Rightarrow> string \<Rightarrow> string \<Rightarrow> error + string" where
  "getLocalFilePathForPage L pageUrl startUrl archivePath =
     (case new_URL L pageUrl None of
        None \<Rightarrow> Inl TypeError
      | Some urlObject \<Rightarrow>
         (case new_URL L startUrl None of
            None \<Rightarrow> Inl TypeError
          | Some startUrlObject \<Rightarrow>
             (let pageFilename = sanitize (strip_slashes (url_pathname urlObject));
                  pageFilename' =
                    (if pageFilename = [] \<or> url_hostname urlObject \<noteq> url_hostname startUrlObject
                     then ''index.html''
                     else if path_extname L pageFilename = []
                     then path_join L [pageFilename, ''index.html'']
                     else pageFilename)
              in Inr (path_join L [archivePath, pageFilename']))))"

text \<open>
  The file name as the specification words it: take the path, strip one leading slash,
  then one trailing slash, then replace each character that is unsafe in a file name
  (one of \<open>< > : " / \ | ? *\<close>) by an underscore.
\<close>

definition fs_unsafe :: "char \<Rightarrow> bool" where
  "fs_unsafe c = (c = CHR ''<'' \<or> c = CHR ''>'' \<or> c = CHR '':'' \<or> c = CHR 0x22 \<or> c = CHR ''/''
                  \<or> c = CHR 0x5C \<or> c = CHR ''|'' \<or> c = CHR ''?'' \<or> c = CHR ''*'')"

primrec replace_unsafe :: "string \<Rightarrow> string" where
  "replace_unsafe [] = []"
| "replace_unsafe (c # cs) = (if fs_unsafe c then CHR ''_'' else c) # replace_unsafe cs"

fun strip_leading :: "string \<Rightarrow> string" where
  "strip_leading [] = []"
| "strip_leading (c # cs) = (if c = CHR ''/'' then cs else c # cs)"

definition strip_trailing :: "string \<Rightarrow> string" where
  "strip_trailing s = rev (strip_leading (rev s))"

definition spec_page_name :: "node_lib \<Rightarrow> url \<Rightarrow> url \<Rightarrow> string" where
  "spec_page_name L u s =
     (let n = replace_unsafe (strip_trailing (strip_leading (url_pathname u)))
      in if n = [] \<or> url_hostname u \<noteq> url_hostname s then ''index.html''
         else if path_extname L n = [] then path_join L [n, ''index.html'']
         else n)"

subsection \<open>fetchPageAndAssets (server.js, lines 60-138)\<close>

text \<open>
  Link discovery (lines 73-84). One anchor's href gives a link when both
  \<^verbatim>\<open>new URL\<close> calls succeed and the host name is the start domain; a throw inside
  the \<^verbatim>\<open>try\<close> gives nothing.
\<close>

definition discover_link :: "node_lib \<Rightarrow> string \<Rightarrow> string \<Rightarrow> string \<Rightarrow> string option" where
  "discover_link L url startDomain link =
     (case new_URL L link (Some url) of
        None \<Rightarrow> None
      | Some u \<Rightarrow>
         (let absoluteLink = split_first CHR ''#'' (url_href u)
          in case new_URL L absoluteLink None of
               None \<Rightarrow> None
             | Some a \<Rightarrow> if url_hostname a = startDomain then Some absoluteLink else None))"

definition discover_anchor :: "node_lib \<Rightarrow> string \<Rightarrow> string \<Rightarrow> element \<Rightarrow> string option" where
  "discover_anchor L url startDomain el =
     (case attr el ''href'' of
        None \<Rightarrow> None
      | Some link \<Rightarrow> if link = [] then None else discover_link L url startDomain link)"

definition discover_links :: "node_lib \<Rightarrow> string \<Rightarrow> string \<Rightarrow> document \<Rightarrow> string list" where
  "discover_links L url startDomain doc =
     List.map_filter (discover_anchor L url startDomain) (filter (\<lambda>el. sel el = Anchor) doc)"

text \<open>Decimal digits of a counter, as a template literal prints them.\<close>

fun show_nat :: "nat \<Rightarrow> string" where
  "show_nat n = (if n < 10 then [''0123456789'' ! n]
                 else show_nat (n div 10) @ [''0123456789'' ! (n mod 10)])"

declare show_nat.simps [simp del]

text \<open>
  \<^verbatim>\<open>String.prototype.trim\<close> on code units below 256: tab, line feed, vertical tab,
  form feed, carriage return, space and the no-break space are white space.
\<close>

definition js_space :: "char \<Rightarrow> bool" where
  "js_space c = (c \<in> set [CHR 0x09, CHR 0x0A, CHR 0x0B, CHR 0x0C, CHR 0x0D, CHR 0x20, CHR 0xA0])"

definition trim :: "string \<Rightarrow> string" where
  "trim s = rev (dropWhile js_space (rev (dropWhile js_space s)))"

text \<open>\<^verbatim>\<open>srcset.split(',')[0].trim().split(' ')[0]\<close>.\<close>

definition first_candidate :: "string \<Rightarrow> string" where
  "first_candidate srcset = split_first CHR '' '' (trim (split_first CHR '','' srcset))"

text \<open>An undefined value passed to \<^verbatim>\<open>new URL\<close> is converted to the string "undefined".\<close>

fun to_String :: "string option \<Rightarrow> string" where
  "to_String None = ''undefined''"
| "to_String (Some s) = s"

record counters =
  css :: nat
  img :: nat
  js :: nat

text \<open>An asset request that was issued: the attribute to rewrite, the URL, where to save.\<close>

record job =
  job_attr :: string
  job_url :: string
  job_path :: string
  job_img :: bool

text \<open>Lines 107-109: the request is issued for a truthy reference that is no data URI.\<close>

definition request_asset ::
  "node_lib \<Rightarrow> string \<Rightarrow> string \<Rightarrow> string \<Rightarrow> string \<Rightarrow> string option \<Rightarrow> string \<Rightarrow> bool \<Rightarrow> error + job option" where
  "request_asset L url archivePath safePageIdentifier attrName fileUrl filename isImg =
     (case fileUrl of
        None \<Rightarrow> Inr None
      | Some f \<Rightarrow>
         if f \<noteq> [] \<and> \<not> startsWith f ''data:'' then
           (case new_URL L f (Some url) of
              None \<Rightarrow> Inl TypeError
            | Some u \<Rightarrow>
               Inr (Some \<lparr>job_attr = attrName, job_url = url_href u,
                          job_path = path_join L [archivePath, ''assets'', safePageIdentifier, filename],
                          job_img = isImg\<rparr>))
         else Inr None)"

text \<open>
  Lines 94-128, the synchronous part of the callback for one element. The counter of the
  element's kind is incremented before the reference is looked at; for an image or a script
  the extension is computed first, by a \<^verbatim>\<open>new URL\<close> outside any inner \<^verbatim>\<open>try\<close>.
\<close>

definition plan_asset ::
  "node_lib \<Rightarrow> string \<Rightarrow> string \<Rightarrow> string \<Rightarrow> counters \<Rightarrow> element \<Rightarrow> error + (counters \<times> job option)" where
  "plan_asset L url archivePath safePageIdentifier c el =
     (case sel el of
        StylesheetLink \<Rightarrow>
          (let n = Suc (css c)
           in case request_asset L url archivePath safePageIdentifier ''href'' (attr el ''href'')
                     (''style-'' @ show_nat n @ ''.css'') False of
                Inl e \<Rightarrow> Inl e
              | Inr j \<Rightarrow> Inr (c\<lparr>css := n\<rparr>, j))
      | Img \<Rightarrow>
          (let fileUrl = (case attr el ''srcset'' of
                            None \<Rightarrow> attr el ''src''
                          | Some ss \<Rightarrow> if ss \<noteq> [] then Some (first_candidate ss) else attr el ''src'')
           in case new_URL L (to_String fileUrl) (Some url) of
                None \<Rightarrow> Inl TypeError
              | Some u \<Rightarrow>
                 (let e = path_extname L (url_pathname u);
                      extension = (if e = [] then ''.jpg'' else e);
                      n = Suc (img c)
                  in case request_asset L url archivePath safePageIdentifier ''src'' fileUrl
                            (''image-'' @ show_nat n @ extension) True of
                       Inl e \<Rightarrow> Inl e
                     | Inr j \<Rightarrow> Inr (c\<lparr>img := n\<rparr>, j)))
      | Script \<Rightarrow>
          (let fileUrl = attr el ''src''
           in case new_URL L (to_String fileUrl) (Some url) of
                None \<Rightarrow> Inl TypeError
              | Some u \<Rightarrow>
                 (let e = path_extname L (url_pathname u);
                      extension = (if e = [] then ''.js'' else e);
                      n = Suc (js c)
                  in case request_asset L url archivePath safePageIdentifier ''src'' fileUrl
                            (''script-'' @ show_nat n @ extension) False of
                       Inl e \<Rightarrow> Inl e
                     | Inr j \<Rightarrow> Inr (c\<lparr>js := n\<rparr>, j)))
      | Anchor \<Rightarrow> Inr (c, None)
      | Other \<Rightarrow> Inr (c, None))"

text \<open>The \<^verbatim>\<open>each\<close> over the document: the first throw leaves the loop.\<close>

fun plan_assets ::
  "node_lib \<Rightarrow> string \<Rightarrow> string \<Rightarrow> string \<Rightarrow> counters \<Rightarrow> document \<Rightarrow> error + job option list" where
  "plan_assets L url archivePath safePageIdentifier c [] = Inr []"
| "plan_assets L url archivePath safePageIdentifier c (el # els) =
     (case plan_asset L url archivePath safePageIdentifier c el of
        Inl e \<Rightarrow> Inl e
      | Inr (c', j) \<Rightarrow>
         (case plan_assets L url archivePath safePageIdentifier c' els of
            Inl e \<Rightarrow> Inl e
          | Inr jobs \<Rightarrow> Inr (j # jobs)))"

text \<open>
  Lines 111-125, one promise once it has settled. A rejected request, or a throw of
  \<^verbatim>\<open>ensureDirSync\<close> or \<^verbatim>\<open>writeFileSync\<close> inside \<^verbatim>\<open>then\<close>, ends in the
  \<^verbatim>\<open>catch\<close> handler, which only logs. Each promise touches its own element only, so the
  order in which the promises settle does not show in the document.
\<close>

definition settle_asset :: "node_lib \<Rightarrow> world \<Rightarrow> nat \<Rightarrow> string \<Rightarrow> nat \<Rightarrow> element \<Rightarrow> job option \<Rightarrow> element" where
  "settle_asset L W n localPagePath i el j =
     (case j of
        None \<Rightarrow> el
      | Some jb \<Rightarrow>
         (case get_asset W n i (job_url jb) of
            None \<Rightarrow> el
          | Some data \<Rightarrow>
             if fs_ensureDir W (path_dirname L (job_path jb)) \<and> fs_writeFile W (job_path jb) then
               (let relativePath = path_relative L (path_dirname L localPagePath) (job_path jb);
                    el' = set_attr el (job_attr jb) (backslash_to_slash relativePath)
                in if job_img jb then removeAttr el' ''srcset'' else el')
             else el))"

definition settle_assets :: "node_lib \<Rightarrow> world \<Rightarrow> nat \<Rightarrow> string \<Rightarrow> document \<Rightarrow> job option list \<Rightarrow> document" where
  "settle_assets L W n localPagePath doc jobs =
     map (\<lambda>(i, el, j). settle_asset L W n localPagePath i el j) (zip [0..<length doc] (zip doc jobs))"

record fetch_result =
  page_doc :: document
  discoveredLinks :: "string list"

text \<open>
  The whole function; \<open>None\<close> is the \<^verbatim>\<open>null\<close> returned by the outer \<^verbatim>\<open>catch\<close>.
  \<open>n\<close> is the number of this page request within the session.
\<close>

definition fetchPageAndAssets ::
  "node_lib \<Rightarrow> world \<Rightarrow> nat \<Rightarrow> string \<Rightarrow> string \<Rightarrow> string \<Rightarrow> fetch_result option" where
  "fetchPageAndAssets L W n url archivePath startUrl =
     (case get_page W n url of
        None \<Rightarrow> None
      | Some doc \<Rightarrow>
         (case new_URL L startUrl None of
            None \<Rightarrow> None
          | Some startUrlObject \<Rightarrow>
             (let links = discover_links L url (url_hostname startUrlObject) doc
              in case getLocalFilePathForPage L url startUrl archivePath of
                   Inl e \<Rightarrow> None
                 | Inr localPagePath \<Rightarrow>
                    (case new_URL L url None of
                       None \<Rightarrow> None
                     | Some pageUrlObject \<Rightarrow>
                        (let stripped = strip_slashes (url_pathname pageUrlObject);
                             safePageIdentifier = sanitize_id (if stripped = [] then ''index'' else stripped)
                         in case plan_assets L url archivePath safePageIdentifier
                                   \<lparr>css = 0, img = 0, js = 0\<rparr> doc of
                              Inl e \<Rightarrow> None
                            | Inr jobs \<Rightarrow>
                               Some \<lparr>page_doc = settle_assets L W n localPagePath doc jobs,
                                     discoveredLinks = Set_from links\<rparr>)))))"

subsection \<open>startCrawl, pass 1 (server.js, lines 153-175)\<close>

text \<open>
  The loop's variables, and \<open>fetchLog\<close>: the URLs on which \<open>fetchPageAndAssets\<close> has been
  called, oldest first (the program prints them, line 62).
\<close>

record crawl_state =
  queue :: "string list"
  visited :: "string list"
  pageDataMap :: "(string \<times> document) list"
  fetchLog :: "string list"

text \<open>
  The guard of line 160. The budget is the number that reaches \<open>startCrawl\<close>: the
  endpoint passes on any positive number of the request, whole or not.
\<close>

definition loop_cond :: "real \<Rightarrow> crawl_state \<Rightarrow> bool" where
  "loop_cond maxPagesToCrawl s = (queue s \<noteq> [] \<and> real (length (visited s)) < maxPagesToCrawl)"

text \<open>Lines 170-174.\<close>

definition enqueue :: "string list \<Rightarrow> string list \<Rightarrow> string list \<Rightarrow> string list" where
  "enqueue vis q links =
     foldl (\<lambda>q' link. if link \<notin> set vis \<and> link \<notin> set q' then q' @ [link] else q') q links"

text \<open>One iteration, lines 161-174 (it runs under the guard, so the queue is not empty).\<close>

definition loop_body :: "node_lib \<Rightarrow> world \<Rightarrow> string \<Rightarrow> string \<Rightarrow> crawl_state \<Rightarrow> crawl_state" where
  "loop_body L W archivePath startUrl s =
     (case queue s of
        [] \<Rightarrow> s
      | currentUrl # rest \<Rightarrow>
         if currentUrl \<in> set (visited s) then s\<lparr>queue := rest\<rparr>
         else
           (case fetchPageAndAssets L W (length (fetchLog s)) currentUrl archivePath startUrl of
              None \<Rightarrow> s\<lparr>queue := rest, fetchLog := fetchLog s @ [currentUrl]\<rparr>
            | Some fetchResult \<Rightarrow>
               (let visited' = set_add currentUrl (visited s)
                in \<lparr>queue = enqueue visited' rest (discoveredLinks fetchResult),
                    visited = visited',
                    pageDataMap = map_set currentUrl (page_doc fetchResult) (pageDataMap s),
                    fetchLog = fetchLog s @ [currentUrl]\<rparr>)))"

function crawl_loop ::
  "node_lib \<Rightarrow> world \<Rightarrow> string \<Rightarrow> string \<Rightarrow> real \<Rightarrow> crawl_state \<Rightarrow> crawl_state" where
  "crawl_loop L W archivePath startUrl maxPagesToCrawl s =
     (if loop_cond maxPagesToCrawl s
      then crawl_loop L W archivePath startUrl maxPagesToCrawl (loop_body L W archivePath startUrl s)
      else s)"
  by pat_completeness auto
termination
proof (relation "measures [\<lambda>(L, W, ap, su, m, s). nat (\<lceil>m\<rceil> - int (length (visited s))),
                           \<lambda>(L, W, ap, su, m, s). length (queue s)]", goal_cases)
  case 1
  show ?case by simp
next
  case (2 L W ap su m s)
  then have "int (length (visited s)) < \<lceil>m\<rceil>"
    by (simp add: loop_cond_def less_ceiling_iff)
  with 2 show ?case
    by (auto simp: loop_cond_def loop_body_def set_add_def Let_def
             split: list.splits option.splits)
qed

declare crawl_loop.simps [simp del]

text \<open>The state after at most \<open>k\<close> iterations: what the loop's variables hold at an iteration boundary.\<close>

fun iterations :: "node_lib \<Rightarrow> world \<Rightarrow> string \<Rightarrow> string \<Rightarrow> real \<Rightarrow> nat \<Rightarrow> crawl_state \<Rightarrow> crawl_state" where
  "iterations L W ap su m 0 s = s"
| "iterations L W ap su m (Suc k) s =
     (if loop_cond m s then iterations L W ap su m k (loop_body L W ap su s) else s)"

definition initial_state :: "string \<Rightarrow> crawl_state" where
  "initial_state startUrl = \<lparr>queue = [startUrl], visited = [], pageDataMap = [], fetchLog = []\<rparr>"

subsection \<open>startCrawl, pass 2 (server.js, lines 180-206)\<close>

text \<open>
  The callback of lines 184-201 on one anchor. Every throw inside the \<^verbatim>\<open>try\<close> leaves
  the element as it is.
\<close>

definition rewrite_anchor ::
  "node_lib \<Rightarrow> string list \<Rightarrow> string \<Rightarrow> string \<Rightarrow> string \<Rightarrow> string \<Rightarrow> string \<Rightarrow> element \<Rightarrow> element" where
  "rewrite_anchor L vis domain startUrl archivePath currentUrl localPagePath linkEl =
     (case attr linkEl ''href'' of
        None \<Rightarrow> linkEl
      | Some href \<Rightarrow>
         if href \<noteq> [] \<and> \<not> startsWith href ''#'' \<and> \<not> startsWith href ''mailto:''
            \<and> \<not> startsWith href ''tel:'' then
           (case new_URL L href (Some currentUrl) of
              None \<Rightarrow> linkEl
            | Some u \<Rightarrow>
               (let absoluteLinkUrl = split_first CHR ''#'' (url_href u)
                in case new_URL L absoluteLinkUrl None of
                     None \<Rightarrow> linkEl
                   | Some a \<Rightarrow>
                      if url_hostname a = domain \<and> absoluteLinkUrl \<in> set vis then
                        (case getLocalFilePathForPage L absoluteLinkUrl startUrl archivePath of
                           Inl e \<Rightarrow> linkEl
                         | Inr linkedPageLocalPath \<Rightarrow>
                            (let relativePath =
                                   path_relative L (path_dirname L localPagePath) linkedPageLocalPath;
                                 r = backslash_to_slash relativePath
                             in set_attr linkEl ''href'' (if r = [] then ''./index.html'' else r)))
                      else set_attr linkEl ''href'' absoluteLinkUrl))
         else linkEl)"

definition rewrite_page ::
  "node_lib \<Rightarrow> string list \<Rightarrow> string \<Rightarrow> string \<Rightarrow> string \<Rightarrow> string \<Rightarrow> string \<Rightarrow> document \<Rightarrow> document" where
  "rewrite_page L vis domain startUrl archivePath currentUrl localPagePath doc =
     map (\<lambda>el. if sel el = Anchor
               then rewrite_anchor L vis domain startUrl archivePath currentUrl localPagePath el
               else el) doc"

record manifest =
  manifest_startUrl :: string
  entrypoint :: string
  archivedAt :: string
  crawledPages :: "string list"

text \<open>What a written file holds: a serialised document or the manifest.\<close>

datatype content = Html document | Json manifest

text \<open>
  The \<^verbatim>\<open>for\<close> loop over the entries of the map; \<open>out\<close> collects the files written so
  far. A throw leaves \<open>startCrawl\<close>.
\<close>

fun pass2 ::
  "node_lib \<Rightarrow> world \<Rightarrow> string list \<Rightarrow> string \<Rightarrow> string \<Rightarrow> string \<Rightarrow> (string \<times> document) list
     \<Rightarrow> (string \<times> content) list \<Rightarrow> error + (string \<times> content) list" where
  "pass2 L W vis domain startUrl archivePath [] out = Inr out"
| "pass2 L W vis domain startUrl archivePath ((currentUrl, doc) # rest) out =
     (case getLocalFilePathForPage L currentUrl startUrl archivePath of
        Inl e \<Rightarrow> Inl e
      | Inr localPagePath \<Rightarrow>
         (let doc' = rewrite_page L vis domain startUrl archivePath currentUrl localPagePath doc
          in if \<not> fs_ensureDir W (path_dirname L localPagePath) then Inl FilesystemFailure
             else if \<not> fs_writeFile W localPagePath then Inl FilesystemFailure
             else pass2 L W vis domain startUrl archivePath rest (out @ [(localPagePath, Html doc')])))"

subsection \<open>startCrawl, the manifest and the whole function (server.js, lines 145-220)\<close>

text \<open>Lines 209-216.\<close>

definition make_manifest :: "node_lib \<Rightarrow> world \<Rightarrow> string \<Rightarrow> string \<Rightarrow> string list \<Rightarrow> error + manifest" where
  "make_manifest L W startUrl archivePath vis =
     (case getLocalFilePathForPage L startUrl startUrl archivePath of
        Inl e \<Rightarrow> Inl e
      | Inr entryPointPath \<Rightarrow>
         Inr \<lparr>manifest_startUrl = startUrl,
              entrypoint = backslash_to_slash (path_relative L archivePath entryPointPath),
              archivedAt = clock W 1,
              crawledPages = sort vis\<rparr>)"

text \<open>What a session that ran to its end leaves behind.\<close>

record session =
  session_archivePath :: string
  session_visited :: "string list"
  session_fetchLog :: "string list"
  session_files :: "(string \<times> content) list"

text \<open>Lines 147-150: the session's directory.\<close>

definition archive_path :: "node_lib \<Rightarrow> world \<Rightarrow> url \<Rightarrow> string" where
  "archive_path L W urlObject =
     (let domain = url_hostname urlObject;
          timestamp = colon_to_dash (clock W 0)
      in path_join L [dirname_of_module L, ''archives'', domain, timestamp])"

definition startCrawl :: "node_lib \<Rightarrow> world \<Rightarrow> string \<Rightarrow> real \<Rightarrow> error + session" where
  "startCrawl L W startUrl maxPagesToCrawl =
     (case new_URL L startUrl None of
        None \<Rightarrow> Inl TypeError
      | Some urlObject \<Rightarrow>
         (let domain = url_hostname urlObject;
              archivePath = archive_path L W urlObject
          in if \<not> fs_ensureDir W archivePath then Inl FilesystemFailure
             else
               (let s = crawl_loop L W archivePath startUrl maxPagesToCrawl (initial_state startUrl)
                in case pass2 L W (visited s) domain startUrl archivePath (pageDataMap s) [] of
                     Inl e \<Rightarrow> Inl e
                   | Inr htmlFiles \<Rightarrow>
                      (case make_manifest L W startUrl archivePath (visited s) of
                         Inl e \<Rightarrow> Inl e
                       | Inr m \<Rightarrow>
                          (let manifestPath = path_join L [archivePath, ''_manifest.json'']
                           in if \<not> fs_writeFile W manifestPath then Inl FilesystemFailure
                              else Inr \<lparr>session_archivePath = archivePath,
                                        session_visited = visited s,
                                        session_fetchLog = fetchLog s,
                                        session_files = htmlFiles @ [(manifestPath, Json m)]\<rparr>)))))"

subsection \<open>POST /api/archive (server.js, lines 227-247)\<close>

text \<open>
  The two fields that line 229 takes out of the request body; each is any JSON value, or
  \<open>None\<close> when the body has no such field (the variable is \<^verbatim>\<open>undefined\<close>).
\<close>

record request_body =
  body_url :: "json option"
  body_maxPages :: "json option"

text \<open>The value in a condition: \<^verbatim>\<open>!url\<close> is the negation of this.\<close>

fun ToBoolean :: "json option \<Rightarrow> bool" where
  "ToBoolean None = False"
| "ToBoolean (Some JNull) = False"
| "ToBoolean (Some (JBool b)) = b"
| "ToBoolean (Some (JNumber r)) = (r \<noteq> 0)"
| "ToBoolean (Some (JString s)) = (s \<noteq> [])"
| "ToBoolean (Some (JArray xs)) = True"
| "ToBoolean (Some (JObject kvs)) = True"

text \<open>
  The value as an operand of \<^verbatim>\<open>>\<close>; \<open>None\<close> is NaN. An array or an object is
  converted to a string first.
\<close>

fun ToNumber :: "node_lib \<Rightarrow> json option \<Rightarrow> real option" where
  "ToNumber L None = None"
| "ToNumber L (Some JNull) = Some 0"
| "ToNumber L (Some (JBool b)) = Some (if b then 1 else 0)"
| "ToNumber L (Some (JNumber r)) = Some r"
| "ToNumber L (Some (JString s)) = StringToNumber L s"
| "ToNumber L (Some (JArray xs)) = StringToNumber L (object_toString L (JArray xs))"
| "ToNumber L (Some (JObject kvs)) = StringToNumber L (object_toString L (JObject kvs))"

text \<open>\<^verbatim>\<open>maxPages > 0\<close>: false when the left operand converts to NaN.\<close>

definition greater_than_zero :: "node_lib \<Rightarrow> json option \<Rightarrow> bool" where
  "greater_than_zero L v = (case ToNumber L v of None \<Rightarrow> False | Some r \<Rightarrow> 0 < r)"

text \<open>
  The handler answers with a status code; \<open>launched\<close> holds the two arguments of the
  \<open>startCrawl\<close> call it made, if it made one. \<open>startCrawl\<close> is an \<^verbatim>\<open>async\<close>
  function: the call returns a promise at once and never throws, so the handler's
  \<^verbatim>\<open>catch\<close> branch (status 500) is not reached.
\<close>

record reply =
  status :: nat
  launched :: "(json \<times> json) option"

definition api_archive :: "node_lib \<Rightarrow> request_body \<Rightarrow> reply" where
  "api_archive L body =
     (case body_url body of
        None \<Rightarrow> \<lparr>status = 400, launched = None\<rparr>
      | Some u \<Rightarrow>
         if \<not> ToBoolean (Some u) then \<lparr>status = 400, launched = None\<rparr>
         else
           (let maxPagesToCrawl =
                  (case body_maxPages body of
                     None \<Rightarrow> JNumber 10
                   | Some maxPages \<Rightarrow>
                      if greater_than_zero L (Some maxPages) then maxPages else JNumber 10)
            in \<lparr>status = 200, launched = Some (u, maxPagesToCrawl)\<rparr>))"

subsection \<open>A library and a few sites for the examples\<close>

text \<open>
  The examples below run the model on concrete inputs, so they need concrete answers
  of the library. \<open>demo_urls\<close> lists what \<^verbatim>\<open>new URL\<close> returns for the calls the
  examples make; any other call throws, as \<^verbatim>\<open>new URL("http://[")\<close> does. The path
  functions are the POSIX ones restricted to what the examples pass them: normalised
  absolute paths and plain file names. Of the strings, only \<open>3\<close> is converted to a
  number in the examples.
\<close>

fun join_with :: "string \<Rightarrow> string list \<Rightarrow> string" where
  "join_with sep [] = []"
| "join_with sep [x] = x"
| "join_with sep (x # y # ys) = x @ sep @ join_with sep (y # ys)"

definition split_on :: "char \<Rightarrow> string \<Rightarrow> string list" where
  "split_on c s = foldr (\<lambda>x acc. if x = c then [] # acc else (x # hd acc) # tl acc) s [[]]"

fun drop_common :: "string list \<Rightarrow> string list \<Rightarrow> string list \<times> string list" where
  "drop_common (x # xs) (y # ys) = (if x = y then drop_common xs ys else (x # xs, y # ys))"
| "drop_common xs ys = (xs, ys)"

definition demo_relative :: "string \<Rightarrow> string \<Rightarrow> string" where
  "demo_relative from to =
     (case drop_common (split_on CHR ''/'' from) (split_on CHR ''/'' to) of
        (up, down) \<Rightarrow> join_with ''/'' (map (\<lambda>_. ''..'') up @ down))"

definition demo_dirname :: "string \<Rightarrow> string" where
  "demo_dirname p = rev (tl (dropWhile (\<lambda>c. c \<noteq> CHR ''/'') (rev p)))"

definition demo_extname :: "string \<Rightarrow> string" where
  "demo_extname p =
     (let b = rev (takeWhile (\<lambda>c. c \<noteq> CHR ''/'') (rev p));
          e = rev (takeWhile (\<lambda>c. c \<noteq> CHR ''.'') (rev b))
      in if CHR ''.'' \<in> set b \<and> Suc (length e) \<noteq> length b then CHR ''.'' # e else [])"

definition mk_url :: "string \<Rightarrow> string \<Rightarrow> string \<Rightarrow> url" where
  "mk_url h host p = \<lparr>url_href = h, url_hostname = host, url_pathname = p\<rparr>"

definition demo_urls :: "((string \<times> string option) \<times> url) list" where
  "demo_urls =
    [((''http://a.io/'', None), mk_url ''http://a.io/'' ''a.io'' ''/''),
     ((''http://a.io/x'', None), mk_url ''http://a.io/x'' ''a.io'' ''/x''),
     ((''http://a.io/y'', None), mk_url ''http://a.io/y'' ''a.io'' ''/y''),
     ((''http://b.io/'', None), mk_url ''http://b.io/'' ''b.io'' ''/''),
     ((''/x'', Some ''http://a.io/''), mk_url ''http://a.io/x'' ''a.io'' ''/x''),
     ((''/y'', Some ''http://a.io/''), mk_url ''http://a.io/y'' ''a.io'' ''/y''),
     ((''/x'', Some ''http://a.io/y''), mk_url ''http://a.io/x'' ''a.io'' ''/x''),
     ((''/#top'', Some ''http://a.io/x''), mk_url ''http://a.io/#top'' ''a.io'' ''/''),
     ((''http://b.io/'', Some ''http://a.io/''), mk_url ''http://b.io/'' ''b.io'' ''/''),
     (([], Some ''http://a.io/''), mk_url ''http://a.io/'' ''a.io'' ''/''),
     (([], Some ''http://a.io/x''), mk_url ''http://a.io/x'' ''a.io'' ''/x''),
     ((''http://a.io/w/a:b*c/'', None), mk_url ''http://a.io/w/a:b*c/'' ''a.io'' ''/w/a:b*c/'')]"

definition demo_lib :: node_lib where
  "demo_lib = \<lparr>new_URL = (\<lambda>input base. map_of demo_urls (input, base)),
               path_extname = demo_extname,
               path_join = join_with ''/'',
               path_relative = demo_relative,
               path_dirname = demo_dirname,
               dirname_of_module = ''/app'',
               StringToNumber = (\<lambda>s. if s = ''3'' then Some 3 else None),
               object_toString = (\<lambda>v. ''[object Object]'')\<rparr>"

text \<open>
  A world serving the given pages (every other page request fails), in which no asset
  can be downloaded and the file system accepts every call.
\<close>

definition demo_world :: "(string \<times> document) list \<Rightarrow> world" where
  "demo_world pages =
     \<lparr>get_page = (\<lambda>n u. map_of pages u),
      get_asset = (\<lambda>n i u. None),
      fs_ensureDir = (\<lambda>p. True),
      fs_writeFile = (\<lambda>p. True),
      clock = (\<lambda>k. if k = 0 then ''2025-09-14T10:00:00.000Z'' else ''2025-09-14T10:00:09.000Z'')\<rparr>"

definition anchor :: "string \<Rightarrow> element" where
  "anchor h = \<lparr>sel = Anchor, attrs = [(''href'', h)]\<rparr>"

text \<open>
  A site of two pages. The start page links to the second page, to another host, and has
  one anchor whose href is no URL and one whose href is empty; the second page links back
  to a fragment of the start page and has an anchor with an empty href as well.
\<close>

definition small_site :: "(string \<times> document) list" where
  "small_site =
     [(''http://a.io/'', [anchor ''/x'', anchor ''http://b.io/'', anchor ''http://['', anchor []]),
      (''http://a.io/x'', [anchor ''/#top'', anchor []])]"

text \<open>
  A site with a dead link: the start page links to \<open>/x\<close> and \<open>/y\<close>, no page is served
  at \<open>/x\<close>, and the page at \<open>/y\<close> links to \<open>/x\<close> as well.
\<close>

definition broken_link_site :: "(string \<times> document) list" where
  "broken_link_site =
     [(''http://a.io/'', [anchor ''/x'', anchor ''/y'']),
      (''http://a.io/y'', [anchor ''/x''])]"

text \<open>A site of three pages: the start page links to two pages without links.\<close>

definition three_page_site :: "(string \<times> document) list" where
  "three_page_site =
     [(''http://a.io/'', [anchor ''/x'', anchor ''/y'']),
      (''http://a.io/x'', []),
      (''http://a.io/y'', [])]"

text \<open>A page whose only element is an image with a source that is no URL.\<close>

definition bad_image_site :: "(string \<times> document) list" where
  "bad_image_site = [(''http://a.io/'', [\<lparr>sel = Img, attrs = [(''src'', ''http://['')]\<rparr>])]"

definition demo_archive :: string where
  "demo_archive = ''/app/archives/a.io/2025-09-14T10-00-00.000Z''"

subsection \<open>Notions the claims use\<close>

text \<open>
  Resolving the href \<open>h\<close> of an anchor on the page \<open>url\<close> throws: one of the two
  \<^verbatim>\<open>new URL\<close> calls of lines 78-79 (and 189-190) rejects its argument.
\<close>

definition malformed :: "node_lib \<Rightarrow> string \<Rightarrow> string \<Rightarrow> bool" where
  "malformed L url h =
     (case new_URL L h (Some url) of
        None \<Rightarrow> True
      | Some u \<Rightarrow> new_URL L (split_first CHR ''#'' (url_href u)) None = None)"

text \<open>The world in which page request \<open>n\<close> for \<open>url\<close> is answered with \<open>doc\<close>.\<close>

definition with_page :: "world \<Rightarrow> nat \<Rightarrow> string \<Rightarrow> document \<Rightarrow> world" where
  "with_page W n url doc =
     W\<lparr>get_page := (\<lambda>n' u'. if n' = n \<and> u' = url then Some doc else get_page W n' u')\<rparr>"

text \<open>What a session shows of itself: the visited set, the fetch log and the paths written.\<close>

definition outcome :: "error + session \<Rightarrow> error + (string list \<times> string list \<times> string list)" where
  "outcome res = map_sum id (\<lambda>r. (session_visited r, session_fetchLog r, map fst (session_files r))) res"

text \<open>The string \<open>s\<close> starts with the string \<open>p\<close>.\<close>

primrec begins_with :: "string \<Rightarrow> string \<Rightarrow> bool" where
  "begins_with [] s = True"
| "begins_with (c # cs) s = (case s of [] \<Rightarrow> False | d # ds \<Rightarrow> c = d \<and> begins_with cs ds)"

text \<open>A URL without its fragment: what stands before the first \<open>#\<close>.\<close>

primrec strip_fragment :: "string \<Rightarrow> string" where
  "strip_fragment [] = []"
| "strip_fragment (c # cs) = (if c = CHR ''#'' then [] else c # strip_fragment cs)"

text \<open>A path with every backslash written as a slash.\<close>

primrec forward_slashes :: "string \<Rightarrow> string" where
  "forward_slashes [] = []"
| "forward_slashes (c # cs) = (if c = CHR 0x5C then CHR ''/'' else c) # forward_slashes cs"

text \<open>\<^verbatim>\<open>new URL(u).hostname\<close>, or \<open>None\<close> when the constructor throws.\<close>

definition hostname_of :: "node_lib \<Rightarrow> string \<Rightarrow> string option" where
  "hostname_of L u = map_option url_hostname (new_URL L u None)"

section \<open>Properties\<close>

subsection \<open>The path mapper\<close>

lemma strip_slashes_single: "strip_slashes [c] = (if c = CHR ''/'' then [] else [c])"
  by (simp add: strip_slashes_def)

lemma upt_ends: "[0..<Suc (Suc n)] = 0 # [Suc 0..<Suc n] @ [Suc n]"
proof -
  have a: "[0..<Suc (Suc n)] = [0..<Suc n] @ [Suc n]"
    by (rule upt_Suc_append) simp
  have b: "[0..<Suc n] = 0 # [Suc 0..<Suc n]"
    by (rule upt_conv_Cons) simp
  from a b show ?thesis by (simp del: upt_Suc)
qed

lemma map_nth_middle: "map ((!) (c # m @ [d])) [Suc 0..<Suc (length m)] = m"
proof -
  have "map ((!) (c # m @ [d])) [Suc 0..<Suc (length m)] =
        map (\<lambda>i. (c # m @ [d]) ! Suc i) [0..<length m]"
    by (simp add: map_Suc_upt [symmetric] del: upt_Suc)
  also have "\<dots> = map ((!) m) [0..<length m]"
    by (rule map_cong) (auto simp: nth_append)
  also have "\<dots> = m" by (rule map_nth)
  finally show ?thesis .
qed

lemma filter_middle:
  "filter (\<lambda>i. \<not> ((c # m @ [d]) ! i = CHR ''/'' \<and> (i = 0 \<or> i = Suc (length m))))
     [Suc 0..<Suc (length m)] = [Suc 0..<Suc (length m)]"
  by (rule filter_True) auto

lemma strip_slashes_ends:
  "strip_slashes (c # m @ [d]) =
     (if c = CHR ''/'' then [] else [c]) @ m @ (if d = CHR ''/'' then [] else [d])"
proof -
  have len: "length (c # m @ [d]) = Suc (Suc (length m))" by simp
  show ?thesis
    unfolding strip_slashes_def len upt_ends
    by (simp del: upt_Suc add: filter_middle map_nth_middle nth_append)
qed

text \<open>The regular expression deletes one leading slash and then one trailing slash.\<close>

lemma strip_slashes_spec: "strip_slashes s = strip_trailing (strip_leading s)"
proof (cases s)
  case Nil
  then show ?thesis by (simp add: strip_slashes_def strip_trailing_def)
next
  case (Cons c cs)
  show ?thesis
  proof (cases cs rule: rev_cases)
    case Nil
    with Cons show ?thesis by (simp add: strip_slashes_single strip_trailing_def)
  next
    case (snoc m d)
    with Cons show ?thesis
      by (simp add: strip_slashes_ends strip_trailing_def)
  qed
qed

text \<open>The character class of line 42 is the set of unsafe characters, replaced one by one.\<close>

lemma unsafe_char_spec: "unsafe_char c = fs_unsafe c"
  by (auto simp: unsafe_char_def fs_unsafe_def)

lemma sanitize_spec: "sanitize s = replace_unsafe s"
  by (induction s) (simp_all add: sanitize_def unsafe_char_spec)

lemma replace_unsafe_safe: "list_all (\<lambda>c. \<not> fs_unsafe c) (replace_unsafe s)"
  by (induction s) (simp_all add: fs_unsafe_def)

lemma replace_unsafe_nth:
  "i < length s \<Longrightarrow> replace_unsafe s ! i = (if fs_unsafe (s ! i) then CHR ''_'' else s ! i)"
proof (induction s arbitrary: i)
  case Nil
  then show ?case by simp
next
  case (Cons c cs)
  then show ?case by (cases i) simp_all
qed

lemma path_mapper_Inr:
  assumes "new_URL L pageUrl None = Some u"
    and "new_URL L startUrl None = Some s"
  shows "getLocalFilePathForPage L pageUrl startUrl archivePath =
           Inr (path_join L [archivePath, spec_page_name L u s])"
  using assms
  by (simp add: getLocalFilePathForPage_def spec_page_name_def strip_slashes_spec sanitize_spec Let_def)

lemma path_mapper_Inl:
  assumes "new_URL L pageUrl None = None \<or> new_URL L startUrl None = None"
  shows "getLocalFilePathForPage L pageUrl startUrl archivePath = Inl TypeError"
  using assms
  by (auto simp: getLocalFilePathForPage_def split: option.splits)

text \<open>
  Claim C6. For a page URL and a start URL that \<^verbatim>\<open>new URL\<close> accepts, the path mapper
  returns the archive path joined with the name the specification describes
  (\<open>spec_page_name\<close>): the URL's path with one leading and one trailing slash stripped
  and each of the characters \<open>< > : " / \ | ? *\<close> replaced by an underscore;
  \<open>index.html\<close> when that is empty or the host names differ; \<open>index.html\<close> beneath it
  when it has no extension; the name itself otherwise. When \<^verbatim>\<open>new URL\<close> rejects one of
  the two, there is no path and host name to speak of, and the function throws.
\<close>

theorem getLocalFilePathForPage_spec:
  "getLocalFilePathForPage L pageUrl startUrl archivePath =
     (case new_URL L pageUrl None of
        None \<Rightarrow> Inl TypeError
      | Some u \<Rightarrow>
         (case new_URL L startUrl None of
            None \<Rightarrow> Inl TypeError
          | Some s \<Rightarrow> Inr (path_join L [archivePath, spec_page_name L u s])))"
proof (cases "new_URL L pageUrl None")
  case None
  then show ?thesis by (simp add: path_mapper_Inl)
next
  case u: (Some u)
  show ?thesis
  proof (cases "new_URL L startUrl None")
    case None
    with u show ?thesis by (simp add: path_mapper_Inl)
  next
    case (Some s)
    with u show ?thesis by (simp add: path_mapper_Inr)
  qed
qed

theorem getLocalFilePathForPage_spec_witness:
  "getLocalFilePathForPage demo_lib ''http://a.io/w/a:b*c/'' ''http://a.io/'' demo_archive
     = Inr ''/app/archives/a.io/2025-09-14T10-00-00.000Z/w_a_b_c/index.html''
   \<and> getLocalFilePathForPage demo_lib ''http://a.io/x'' ''http://a.io/'' demo_archive
     = Inr ''/app/archives/a.io/2025-09-14T10-00-00.000Z/x/index.html''
   \<and> getLocalFilePathForPage demo_lib ''http://b.io/'' ''http://a.io/'' demo_archive
     = Inr ''/app/archives/a.io/2025-09-14T10-00-00.000Z/index.html''
   \<and> getLocalFilePathForPage demo_lib ''http://['' ''http://a.io/'' demo_archive = Inl TypeError"
proof -
  have "(case new_URL demo_lib ''http://a.io/w/a:b*c/'' None of
           None \<Rightarrow> Inl TypeError
         | Some u \<Rightarrow>
            (case new_URL demo_lib ''http://a.io/'' None of
               None \<Rightarrow> Inl TypeError
             | Some s \<Rightarrow> Inr (path_join demo_lib [demo_archive, spec_page_name demo_lib u s])))
        = Inr ''/app/archives/a.io/2025-09-14T10-00-00.000Z/w_a_b_c/index.html''"
    by code_simp
  moreover have "(case new_URL demo_lib ''http://a.io/x'' None of
           None \<Rightarrow> Inl TypeError
         | Some u \<Rightarrow>
            (case new_URL demo_lib ''http://a.io/'' None of
               None \<Rightarrow> Inl TypeError
             | Some s \<Rightarrow> Inr (path_join demo_lib [demo_archive, spec_page_name demo_lib u s])))
        = Inr ''/app/archives/a.io/2025-09-14T10-00-00.000Z/x/index.html''"
    by code_simp
  moreover have "(case new_URL demo_lib ''http://b.io/'' None of
           None \<Rightarrow> Inl TypeError
         | Some u \<Rightarrow>
            (case new_URL demo_lib ''http://a.io/'' None of
               None \<Rightarrow> Inl TypeError
             | Some s \<Rightarrow> Inr (path_join demo_lib [demo_archive, spec_page_name demo_lib u s])))
        = Inr ''/app/archives/a.io/2025-09-14T10-00-00.000Z/index.html''"
    by code_simp
  moreover have "(case new_URL demo_lib ''http://['' None of
           None \<Rightarrow> Inl TypeError
         | Some u \<Rightarrow>
            (case new_URL demo_lib ''http://a.io/'' None of
               None \<Rightarrow> Inl TypeError
             | Some s \<Rightarrow> Inr (path_join demo_lib [demo_archive, spec_page_name demo_lib u s])))
        = Inl TypeError"
    by code_simp
  ultimately show ?thesis
    by (simp only: getLocalFilePathForPage_spec [symmetric])
qed

subsection \<open>The frontier loop\<close>

text \<open>An invariant of one iteration is an invariant of the loop and of every iteration boundary.\<close>

lemma crawl_loop_invariant:
  assumes "P s"
    and "\<And>t. P t \<Longrightarrow> loop_cond m t \<Longrightarrow> P (loop_body L W ap su t)"
  shows "P (crawl_loop L W ap su m s)"
  using assms
proof (induction L W ap su m s rule: crawl_loop.induct)
  case (1 L W ap su m s)
  show ?case
  proof (cases "loop_cond m s")
    case True
    with 1 show ?thesis by (simp add: crawl_loop.simps [of L W ap su m s])
  next
    case False
    with 1 show ?thesis by (simp add: crawl_loop.simps [of L W ap su m s])
  qed
qed

lemma iterations_invariant:
  assumes "P s"
    and "\<And>t. P t \<Longrightarrow> loop_cond m t \<Longrightarrow> P (loop_body L W ap su t)"
  shows "P (iterations L W ap su m k s)"
  using assms by (induction k arbitrary: s) auto

lemma iterations_Suc:
  "iterations L W ap su m (Suc k) s =
     (let t = iterations L W ap su m k s
      in if loop_cond m t then loop_body L W ap su t else t)"
proof (induction k arbitrary: s)
  case 0
  show ?case by simp
next
  case (Suc k)
  show ?case
  proof (cases "loop_cond m s")
    case True
    then show ?thesis using Suc [of "loop_body L W ap su s"] by simp
  next
    case False
    then show ?thesis by simp
  qed
qed

lemma crawl_loop_exit: "\<not> loop_cond m (crawl_loop L W ap su m s)"
proof (induction L W ap su m s rule: crawl_loop.induct)
  case (1 L W ap su m s)
  then show ?case by (cases "loop_cond m s") (simp_all add: crawl_loop.simps [of L W ap su m s])
qed

lemma crawl_loop_iterations: "\<exists>k. crawl_loop L W ap su m s = iterations L W ap su m k s"
proof (induction L W ap su m s rule: crawl_loop.induct)
  case (1 L W ap su m s)
  show ?case
  proof (cases "loop_cond m s")
    case True
    with 1 obtain k where
      "crawl_loop L W ap su m (loop_body L W ap su s) = iterations L W ap su m k (loop_body L W ap su s)"
      by blast
    with True have "crawl_loop L W ap su m s = iterations L W ap su m (Suc k) s"
      by (simp add: crawl_loop.simps [of L W ap su m s])
    then show ?thesis ..
  next
    case False
    then have "crawl_loop L W ap su m s = iterations L W ap su m 0 s"
      by (simp add: crawl_loop.simps [of L W ap su m s])
    then show ?thesis ..
  qed
qed

lemma loop_body_visited:
  "visited (loop_body L W ap su s) = visited s \<or>
   (\<exists>x. x \<notin> set (visited s) \<and> x \<in> set (queue s) \<and> visited (loop_body L W ap su s) = visited s @ [x])"
  by (auto simp: loop_body_def set_add_def Let_def split: list.splits option.splits)

lemma loop_body_budget:
  assumes "loop_cond m s"
  shows "int (length (visited (loop_body L W ap su s))) \<le> \<lceil>m\<rceil>"
proof -
  from assms have "int (length (visited s)) < \<lceil>m\<rceil>"
    by (simp add: loop_cond_def less_ceiling_iff)
  with loop_body_visited [of L W ap su s] show ?thesis by auto
qed

lemma loop_body_grows: "set (visited s) \<subseteq> set (visited (loop_body L W ap su s))"
  using loop_body_visited [of L W ap su s] by auto

lemma set_foldl_set_add: "set (foldl (\<lambda>acc x. set_add x acc) a xs) = set a \<union> set xs"
  by (induction xs arbitrary: a) (auto simp: set_add_def)

lemma set_Set_from: "set (Set_from xs) = set xs"
  by (simp add: Set_from_def set_foldl_set_add)

lemma set_enqueue: "set (enqueue vis q links) \<subseteq> set q \<union> set links"
proof (induction links arbitrary: q)
  case Nil
  show ?case by (simp add: enqueue_def)
next
  case (Cons a links)
  let ?q = "if a \<notin> set vis \<and> a \<notin> set q then q @ [a] else q"
  have "enqueue vis q (a # links) = enqueue vis ?q links"
    by (simp add: enqueue_def)
  moreover have "set (enqueue vis ?q links) \<subseteq> set ?q \<union> set links"
    by (rule Cons.IH)
  moreover have "set ?q \<subseteq> set q \<union> {a}"
    by auto
  ultimately show ?case by auto
qed

lemma discover_link_host:
  "discover_link L url d link = Some l \<Longrightarrow> hostname_of L l = Some d"
  by (auto simp: discover_link_def hostname_of_def Let_def split: option.splits if_splits)

lemma discover_links_host:
  assumes "l \<in> set (discover_links L url d doc)"
  shows "hostname_of L l = Some d"
proof -
  from assms obtain el where "discover_anchor L url d el = Some l"
    by (auto simp: discover_links_def List.map_filter_def)
  then obtain link where "discover_link L url d link = Some l"
    by (auto simp: discover_anchor_def split: option.splits if_splits)
  then show ?thesis by (rule discover_link_host)
qed

lemma fetch_links_host:
  assumes "fetchPageAndAssets L W n url ap su = Some r"
    and "new_URL L su None = Some s0"
    and "l \<in> set (discoveredLinks r)"
  shows "hostname_of L l = Some (url_hostname s0)"
proof -
  from assms(1,2) have "discoveredLinks r = Set_from (discover_links L url (url_hostname s0) (the (get_page W n url)))"
    by (auto simp: fetchPageAndAssets_def Let_def split: option.splits sum.splits)
  with assms(3) have "l \<in> set (discover_links L url (url_hostname s0) (the (get_page W n url)))"
    by (simp add: set_Set_from)
  then show ?thesis by (rule discover_links_host)
qed

lemma loop_body_hosts:
  assumes s0: "new_URL L su None = Some s0"
    and inv: "\<forall>u \<in> set (queue s) \<union> set (visited s). hostname_of L u = Some (url_hostname s0)"
  shows "\<forall>u \<in> set (queue (loop_body L W ap su s)) \<union> set (visited (loop_body L W ap su s)).
           hostname_of L u = Some (url_hostname s0)"
proof (cases "queue s")
  case Nil
  with inv show ?thesis by (simp add: loop_body_def)
next
  case (Cons c rest)
  show ?thesis
  proof (cases "c \<in> set (visited s)")
    case True
    with Cons inv show ?thesis by (auto simp: loop_body_def)
  next
    case False
    show ?thesis
    proof (cases "fetchPageAndAssets L W (length (fetchLog s)) c ap su")
      case None
      with Cons False inv show ?thesis by (auto simp: loop_body_def)
    next
      case (Some r)
      have links: "\<forall>l \<in> set (discoveredLinks r). hostname_of L l = Some (url_hostname s0)"
        using fetch_links_host [OF Some s0] by blast
      have q: "set (enqueue (set_add c (visited s)) rest (discoveredLinks r))
                 \<subseteq> set rest \<union> set (discoveredLinks r)"
        by (rule set_enqueue)
      from Cons False Some have
        "queue (loop_body L W ap su s) = enqueue (set_add c (visited s)) rest (discoveredLinks r)"
        "visited (loop_body L W ap su s) = set_add c (visited s)"
        by (simp_all add: loop_body_def Let_def)
      with q links inv Cons show ?thesis
        by (auto simp: set_add_def)
    qed
  qed
qed

lemma loop_body_distinct:
  "distinct (visited s) \<Longrightarrow> distinct (visited (loop_body L W ap su s))"
  using loop_body_visited [of L W ap su s] by auto

lemma crawl_loop_distinct: "distinct (visited (crawl_loop L W ap su m (initial_state su)))"
proof -
  have "distinct (visited (initial_state su))" by (simp add: initial_state_def)
  then show ?thesis
    by (rule crawl_loop_invariant [where P = "\<lambda>s. distinct (visited s)"]) (rule loop_body_distinct)
qed

lemma startCrawl_Inr:
  assumes "startCrawl L W su m = Inr r"
  shows "\<exists>s0 htmlFiles mm.
           new_URL L su None = Some s0 \<and>
           pass2 L W (visited (crawl_loop L W (archive_path L W s0) su m (initial_state su)))
                 (url_hostname s0) su (archive_path L W s0)
                 (pageDataMap (crawl_loop L W (archive_path L W s0) su m (initial_state su))) [] = Inr htmlFiles \<and>
           make_manifest L W su (archive_path L W s0)
                 (visited (crawl_loop L W (archive_path L W s0) su m (initial_state su))) = Inr mm \<and>
           r = \<lparr>session_archivePath = archive_path L W s0,
                session_visited = visited (crawl_loop L W (archive_path L W s0) su m (initial_state su)),
                session_fetchLog = fetchLog (crawl_loop L W (archive_path L W s0) su m (initial_state su)),
                session_files = htmlFiles @ [(path_join L [archive_path L W s0, ''_manifest.json''], Json mm)]\<rparr>"
  using assms
  by (auto simp: startCrawl_def archive_path_def Let_def split: option.splits sum.splits if_splits)

lemma startCrawl_visited:
  assumes "startCrawl L W su m = Inr r"
  shows "\<exists>s0. new_URL L su None = Some s0 \<and>
           session_visited r = visited (crawl_loop L W (archive_path L W s0) su m (initial_state su))"
  using startCrawl_Inr [OF assms] by auto

lemma make_manifest_pages: "make_manifest L W su ap vis = Inr mm \<Longrightarrow> crawledPages mm = sort vis"
  by (auto simp: make_manifest_def split: sum.splits)

text \<open>
  Claim C3, amended. For a page budget that is not negative, at every iteration boundary
  of the pass-1 loop (after any number \<open>k\<close> of iterations) the visited set holds at most
  \<open>\<lceil>maxPagesToCrawl\<rceil>\<close> URLs, the budget rounded up to a whole number (the budget
  itself when it is whole), and is contained in the visited set one iteration later; the
  bound holds when the loop has exited, and for the visited set of every session that
  runs to its end. (The endpoint passes a positive budget.)
\<close>

theorem budget_bound:
  assumes "0 \<le> m"
  shows "int (length (visited (iterations L W ap su m k (initial_state su)))) \<le> \<lceil>m\<rceil>
       \<and> set (visited (iterations L W ap su m k (initial_state su)))
           \<subseteq> set (visited (iterations L W ap su m (Suc k) (initial_state su)))
       \<and> int (length (visited (crawl_loop L W ap su m (initial_state su)))) \<le> \<lceil>m\<rceil>
       \<and> (case startCrawl L W su m of
             Inl e \<Rightarrow> True
           | Inr r \<Rightarrow> int (length (session_visited r)) \<le> \<lceil>m\<rceil>)"
proof -
  let ?P = "\<lambda>s. int (length (visited s)) \<le> \<lceil>m\<rceil>"
  have init: "?P (initial_state su)"
    using assms by (simp add: initial_state_def)
  have step: "\<And>ap t. ?P t \<Longrightarrow> loop_cond m t \<Longrightarrow> ?P (loop_body L W ap su t)"
    by (rule loop_body_budget)
  have a: "?P (iterations L W ap su m k (initial_state su))"
    using init step by (rule iterations_invariant)
  have b: "?P (crawl_loop L W ap su m (initial_state su))" for ap
    using init step by (rule crawl_loop_invariant)
  have c: "set (visited (iterations L W ap su m k (initial_state su)))
           \<subseteq> set (visited (iterations L W ap su m (Suc k) (initial_state su)))"
    unfolding iterations_Suc Let_def using loop_body_grows by simp
  have d: "int (length (session_visited r)) \<le> \<lceil>m\<rceil>" if "startCrawl L W su m = Inr r" for r
    using startCrawl_visited [OF that] b by auto
  from a b c d show ?thesis by (simp split: sum.splits)
qed

text \<open>With a whole budget the bound is the budget; with 2.5 it is 3, and it is reached.\<close>

theorem budget_bound_witness:
  "(0::real) \<le> 1
   \<and> \<lceil>1::real\<rceil> = 1
   \<and> int (length (visited (iterations demo_lib (demo_world small_site) demo_archive ''http://a.io/'' 1 1
                             (initial_state ''http://a.io/'')))) \<le> 1
   \<and> set (visited (iterations demo_lib (demo_world small_site) demo_archive ''http://a.io/'' 1 1
                             (initial_state ''http://a.io/'')))
       \<subseteq> set (visited (iterations demo_lib (demo_world small_site) demo_archive ''http://a.io/'' 1 (Suc 1)
                             (initial_state ''http://a.io/'')))
   \<and> int (length (visited (crawl_loop demo_lib (demo_world small_site) demo_archive ''http://a.io/'' 1
                             (initial_state ''http://a.io/'')))) \<le> 1
   \<and> visited (crawl_loop demo_lib (demo_world small_site) demo_archive ''http://a.io/'' 1
                 (initial_state ''http://a.io/'')) = [''http://a.io/'']
   \<and> queue (crawl_loop demo_lib (demo_world small_site) demo_archive ''http://a.io/'' 1
                 (initial_state ''http://a.io/'')) = [''http://a.io/x'']
   \<and> (0::real) \<le> 5 / 2
   \<and> \<lceil>5 / 2 :: real\<rceil> = 3
   \<and> int (length (visited (crawl_loop demo_lib (demo_world three_page_site) demo_archive ''http://a.io/''
                             (5 / 2) (initial_state ''http://a.io/'')))) \<le> 3"
proof -
  have h: "(0::real) \<le> 1" by simp
  have c1: "\<lceil>1::real\<rceil> = 1" by simp
  have v: "visited (crawl_loop demo_lib (demo_world small_site) demo_archive ''http://a.io/'' 1
                 (initial_state ''http://a.io/'')) = [''http://a.io/'']"
    by code_simp
  have q: "queue (crawl_loop demo_lib (demo_world small_site) demo_archive ''http://a.io/'' 1
                 (initial_state ''http://a.io/'')) = [''http://a.io/x'']"
    by code_simp
  have h': "(0::real) \<le> 5 / 2" by simp
  have c2: "\<lceil>5 / 2 :: real\<rceil> = 3" by (simp add: ceiling_eq_iff)
  from budget_bound [OF h, of demo_lib "demo_world small_site" demo_archive "''http://a.io/''" 1]
    budget_bound [OF h', of demo_lib "demo_world three_page_site" demo_archive "''http://a.io/''" 0]
    h h' c1 c2 v q
  show ?thesis by simp
qed

text \<open>
  Claim C3 as stated fails for a budget that is not whole. The endpoint hands the number
  2.5 of a request to \<open>startCrawl\<close> as it is, and on a site of three pages the loop
  then visits all three: after two pages the guard \<open>2 < 2.5\<close> of line 160 still holds.
\<close>

theorem fractional_budget_counterexample:
  "launched (api_archive demo_lib
      \<lparr>body_url = Some (JString ''http://a.io/''), body_maxPages = Some (JNumber (5 / 2))\<rparr>)
     = Some (JString ''http://a.io/'', JNumber (5 / 2))
   \<and> (case startCrawl demo_lib (demo_world three_page_site) ''http://a.io/'' (5 / 2) of
         Inl e \<Rightarrow> False
       | Inr r \<Rightarrow> session_visited r = [''http://a.io/'', ''http://a.io/x'', ''http://a.io/y'']
                \<and> \<not> real (length (session_visited r)) \<le> 5 / 2)"
  by code_simp

text \<open>
  Claim C4. In a session whose start URL \<^verbatim>\<open>new URL\<close> accepts, every URL in the visited
  set, at every iteration boundary, at the exit of the loop and in the result of a session
  that runs to its end, has the host name of the start URL.
\<close>

theorem visited_same_host:
  assumes "new_URL L su None = Some s0"
  shows "(\<forall>v \<in> set (visited (iterations L W ap su m k (initial_state su))).
            hostname_of L v = Some (url_hostname s0))
       \<and> (\<forall>v \<in> set (visited (crawl_loop L W ap su m (initial_state su))).
            hostname_of L v = Some (url_hostname s0))
       \<and> (case startCrawl L W su m of
             Inl e \<Rightarrow> True
           | Inr r \<Rightarrow> \<forall>v \<in> set (session_visited r). hostname_of L v = Some (url_hostname s0))"
proof -
  let ?P = "\<lambda>s. \<forall>u \<in> set (queue s) \<union> set (visited s). hostname_of L u = Some (url_hostname s0)"
  have init: "?P (initial_state su)"
    using assms by (simp add: initial_state_def hostname_of_def)
  have step: "\<And>ap t. ?P t \<Longrightarrow> loop_cond m t \<Longrightarrow> ?P (loop_body L W ap su t)"
    using loop_body_hosts [OF assms] by blast
  have a: "?P (iterations L W ap su m k (initial_state su))"
    using init step by (rule iterations_invariant)
  have b: "?P (crawl_loop L W ap su m (initial_state su))" for ap
    using init step by (rule crawl_loop_invariant)
  have c: "\<forall>v \<in> set (session_visited r). hostname_of L v = Some (url_hostname s0)"
    if "startCrawl L W su m = Inr r" for r
  proof -
    from startCrawl_visited [OF that] obtain s1 where
      "session_visited r = visited (crawl_loop L W (archive_path L W s1) su m (initial_state su))"
      by blast
    with b [of "archive_path L W s1"] show ?thesis by simp
  qed
  from a b [of ap] c show ?thesis by (auto split: sum.splits)
qed

theorem visited_same_host_witness:
  "new_URL demo_lib ''http://a.io/'' None = Some (mk_url ''http://a.io/'' ''a.io'' ''/'')
   \<and> visited (crawl_loop demo_lib (demo_world small_site) demo_archive ''http://a.io/'' 10
        (initial_state ''http://a.io/'')) = [''http://a.io/'', ''http://a.io/x'']
   \<and> hostname_of demo_lib ''http://a.io/'' = Some ''a.io''
   \<and> hostname_of demo_lib ''http://a.io/x'' = Some ''a.io''"
proof -
  have h: "new_URL demo_lib ''http://a.io/'' None = Some (mk_url ''http://a.io/'' ''a.io'' ''/'')"
    by code_simp
  have v: "visited (crawl_loop demo_lib (demo_world small_site) demo_archive ''http://a.io/'' 10
        (initial_state ''http://a.io/'')) = [''http://a.io/'', ''http://a.io/x'']"
    by code_simp
  from visited_same_host [OF h, of "demo_world small_site" demo_archive 10 0] v
  have "hostname_of demo_lib ''http://a.io/'' = Some ''a.io''
      \<and> hostname_of demo_lib ''http://a.io/x'' = Some ''a.io''"
    by (simp add: mk_url_def)
  with h v show ?thesis by blast
qed

subsection \<open>The manifest\<close>

text \<open>
  Claim C5. The manifest that a finished session has written, as the last file and at
  the session root, lists in \<open>crawledPages\<close> exactly the elements of the final visited
  set, sorted and without duplicates.
\<close>

theorem manifest_fidelity:
  assumes "startCrawl L W su m = Inr r"
  shows "\<exists>mm. last (session_files r) = (path_join L [session_archivePath r, ''_manifest.json''], Json mm)
            \<and> crawledPages mm = sort (session_visited r)
            \<and> sorted (crawledPages mm) \<and> distinct (crawledPages mm)
            \<and> set (crawledPages mm) = set (session_visited r)"
proof -
  from startCrawl_Inr [OF assms] obtain s0 htmlFiles mm where
    mm: "make_manifest L W su (archive_path L W s0)
           (visited (crawl_loop L W (archive_path L W s0) su m (initial_state su))) = Inr mm"
    and r: "r = \<lparr>session_archivePath = archive_path L W s0,
                session_visited = visited (crawl_loop L W (archive_path L W s0) su m (initial_state su)),
                session_fetchLog = fetchLog (crawl_loop L W (archive_path L W s0) su m (initial_state su)),
                session_files = htmlFiles @ [(path_join L [archive_path L W s0, ''_manifest.json''], Json mm)]\<rparr>"
    by blast
  have pages: "crawledPages mm = sort (session_visited r)"
    using make_manifest_pages [OF mm] r by simp
  have "distinct (session_visited r)"
    using r crawl_loop_distinct by simp
  with pages r show ?thesis by simp
qed

theorem manifest_fidelity_witness:
  "\<exists>r mm. startCrawl demo_lib (demo_world small_site) ''http://a.io/'' 10 = Inr r
      \<and> session_visited r = [''http://a.io/'', ''http://a.io/x'']
      \<and> last (session_files r) =
           (''/app/archives/a.io/2025-09-14T10-00-00.000Z/_manifest.json'', Json mm)
      \<and> crawledPages mm = [''http://a.io/'', ''http://a.io/x'']
      \<and> sorted (crawledPages mm) \<and> distinct (crawledPages mm)"
proof -
  have "case startCrawl demo_lib (demo_world small_site) ''http://a.io/'' 10 of
          Inl e \<Rightarrow> False
        | Inr r \<Rightarrow> session_visited r = [''http://a.io/'', ''http://a.io/x'']
                 \<and> path_join demo_lib [session_archivePath r, ''_manifest.json'']
                     = ''/app/archives/a.io/2025-09-14T10-00-00.000Z/_manifest.json''"
    by code_simp
  then obtain r where r: "startCrawl demo_lib (demo_world small_site) ''http://a.io/'' 10 = Inr r"
    and v: "session_visited r = [''http://a.io/'', ''http://a.io/x'']"
    and p: "path_join demo_lib [session_archivePath r, ''_manifest.json'']
              = ''/app/archives/a.io/2025-09-14T10-00-00.000Z/_manifest.json''"
    by (auto split: sum.splits)
  have srt: "sort [''http://a.io/'', ''http://a.io/x''] = [''http://a.io/'', ''http://a.io/x'']"
    by code_simp
  from manifest_fidelity [OF r] obtain mm where
    "last (session_files r) = (path_join demo_lib [session_archivePath r, ''_manifest.json''], Json mm)"
    "crawledPages mm = sort (session_visited r)"
    "sorted (crawledPages mm)" "distinct (crawledPages mm)"
    by blast
  with r v p srt show ?thesis by auto
qed

lemma fetch_fails_without_page:
  "get_page W n url = None \<Longrightarrow> fetchPageAndAssets L W n url ap su = None"
  by (simp add: fetchPageAndAssets_def)

lemma crawl_loop_start_fails:
  assumes "get_page W 0 su = None"
  shows "visited (crawl_loop L W ap su m (initial_state su)) = []
       \<and> pageDataMap (crawl_loop L W ap su m (initial_state su)) = []"
proof (cases "loop_cond m (initial_state su)")
  case False
  then have "crawl_loop L W ap su m (initial_state su) = initial_state su"
    by (simp add: crawl_loop.simps [of L W ap su m "initial_state su"])
  then show ?thesis by (simp add: initial_state_def)
next
  case True
  let ?t = "\<lparr>queue = [], visited = [], pageDataMap = [], fetchLog = [su]\<rparr>"
  have body: "loop_body L W ap su (initial_state su) = ?t"
    using assms by (simp add: loop_body_def initial_state_def fetch_fails_without_page)
  have "\<not> loop_cond m ?t" by (simp add: loop_cond_def)
  then have "crawl_loop L W ap su m ?t = ?t"
    by (simp add: crawl_loop.simps [of L W ap su m ?t])
  with True body have "crawl_loop L W ap su m (initial_state su) = ?t"
    by (simp add: crawl_loop.simps [of L W ap su m "initial_state su"])
  then show ?thesis by simp
qed

text \<open>
  Claim C10. Once the loop and pass 2 have completed, the manifest is written at the
  session root whatever the visited set holds (no condition but the file system taking
  the write): \<open>startCrawl\<close> returns, the manifest is the last file written, its
  \<open>crawledPages\<close> is the sorted visited set and its entry point is the start URL's
  local path relative to the session root. When the fetch of the start URL fails, the
  visited set is empty, no HTML file is written and \<open>crawledPages\<close> is the empty list.
\<close>

theorem manifest_unconditional:
  assumes s0: "new_URL L su None = Some s0"
    and dir: "fs_ensureDir W (archive_path L W s0)"
    and s: "s = crawl_loop L W (archive_path L W s0) su m (initial_state su)"
    and p2: "pass2 L W (visited s) (url_hostname s0) su (archive_path L W s0) (pageDataMap s) [] = Inr htmlFiles"
    and wr: "fs_writeFile W (path_join L [archive_path L W s0, ''_manifest.json''])"
  shows "\<exists>r mm. startCrawl L W su m = Inr r
           \<and> session_files r = htmlFiles @ [(path_join L [archive_path L W s0, ''_manifest.json''], Json mm)]
           \<and> manifest_startUrl mm = su
           \<and> crawledPages mm = sort (visited s)
           \<and> entrypoint mm =
               backslash_to_slash (path_relative L (archive_path L W s0)
                 (path_join L [archive_path L W s0, spec_page_name L s0 s0]))
           \<and> (if get_page W 0 su = None
               then visited s = [] \<and> htmlFiles = [] \<and> crawledPages mm = []
               else True)"
proof -
  let ?ap = "archive_path L W s0"
  let ?mm = "\<lparr>manifest_startUrl = su,
              entrypoint = backslash_to_slash (path_relative L ?ap (path_join L [?ap, spec_page_name L s0 s0])),
              archivedAt = clock W 1,
              crawledPages = sort (visited s)\<rparr>"
  let ?r = "\<lparr>session_archivePath = ?ap, session_visited = visited s, session_fetchLog = fetchLog s,
             session_files = htmlFiles @ [(path_join L [?ap, ''_manifest.json''], Json ?mm)]\<rparr>"
  have mm: "make_manifest L W su ?ap (visited s) = Inr ?mm"
    by (simp add: make_manifest_def path_mapper_Inr [OF s0 s0])
  have run: "startCrawl L W su m = Inr ?r"
    using s0 dir p2 wr mm unfolding s
    by (simp add: startCrawl_def Let_def)
  have zero: "get_page W 0 su = None \<Longrightarrow> visited s = [] \<and> htmlFiles = []"
  proof -
    assume "get_page W 0 su = None"
    then have "visited s = [] \<and> pageDataMap s = []"
      unfolding s by (rule crawl_loop_start_fails)
    with p2 show ?thesis by simp
  qed
  show ?thesis
  proof (intro exI [of _ ?r] exI [of _ ?mm] conjI)
    show "startCrawl L W su m = Inr ?r" by (rule run)
    show "if get_page W 0 su = None then visited s = [] \<and> htmlFiles = [] \<and> crawledPages ?mm = [] else True"
      using zero by simp
  qed simp_all
qed

theorem manifest_unconditional_witness:
  "new_URL demo_lib ''http://a.io/'' None = Some (mk_url ''http://a.io/'' ''a.io'' ''/'')
   \<and> archive_path demo_lib (demo_world []) (mk_url ''http://a.io/'' ''a.io'' ''/'') = demo_archive
   \<and> get_page (demo_world []) 0 ''http://a.io/'' = None
   \<and> (\<exists>r mm. startCrawl demo_lib (demo_world []) ''http://a.io/'' 10 = Inr r
         \<and> session_files r = [(''/app/archives/a.io/2025-09-14T10-00-00.000Z/_manifest.json'', Json mm)]
         \<and> manifest_startUrl mm = ''http://a.io/''
         \<and> crawledPages mm = []
         \<and> entrypoint mm = ''index.html'')"
proof -
  let ?u = "mk_url ''http://a.io/'' ''a.io'' ''/''"
  let ?W = "demo_world []"
  let ?s = "crawl_loop demo_lib ?W (archive_path demo_lib ?W ?u) ''http://a.io/'' 10 (initial_state ''http://a.io/'')"
  have h1: "new_URL demo_lib ''http://a.io/'' None = Some ?u" by code_simp
  have ap: "archive_path demo_lib ?W ?u = demo_archive" by code_simp
  have h2: "fs_ensureDir ?W (archive_path demo_lib ?W ?u)" by code_simp
  have h4: "pass2 demo_lib ?W (visited ?s) (url_hostname ?u) ''http://a.io/''
              (archive_path demo_lib ?W ?u) (pageDataMap ?s) [] = Inr []" by code_simp
  have h5: "fs_writeFile ?W (path_join demo_lib [archive_path demo_lib ?W ?u, ''_manifest.json''])"
    by code_simp
  have g: "get_page ?W 0 ''http://a.io/'' = None" by code_simp
  have p: "path_join demo_lib [archive_path demo_lib ?W ?u, ''_manifest.json'']
             = ''/app/archives/a.io/2025-09-14T10-00-00.000Z/_manifest.json''" by code_simp
  have e: "backslash_to_slash (path_relative demo_lib (archive_path demo_lib ?W ?u)
              (path_join demo_lib [archive_path demo_lib ?W ?u, spec_page_name demo_lib ?u ?u]))
             = ''index.html''" by code_simp
  from manifest_unconditional [OF h1 h2 refl h4 h5] g p e
  have "\<exists>r mm. startCrawl demo_lib ?W ''http://a.io/'' 10 = Inr r
         \<and> session_files r = [(''/app/archives/a.io/2025-09-14T10-00-00.000Z/_manifest.json'', Json mm)]
         \<and> manifest_startUrl mm = ''http://a.io/''
         \<and> crawledPages mm = []
         \<and> entrypoint mm = ''index.html''"
    by auto
  with h1 ap g show ?thesis by blast
qed

subsection \<open>Pass 2: rewriting the anchors\<close>

text \<open>
  \<^verbatim>\<open>split('#')[0]\<close> is the URL without its fragment, and the replacement of line 194
  writes every backslash as a slash.
\<close>

lemma split_first_fragment: "split_first CHR ''#'' s = strip_fragment s"
  by (induction s) (simp_all add: split_first_def)

lemma strip_fragment_prefix:
  "\<exists>rest. s = strip_fragment s @ rest \<and> (rest = [] \<or> hd rest = CHR ''#'')"
  by (induction s) auto

lemma strip_fragment_no_hash: "CHR ''#'' \<notin> set (strip_fragment s)"
  by (induction s) auto

lemma startsWith_spec: "startsWith s p = begins_with p s"
proof (induction p arbitrary: s)
  case Nil
  show ?case by (simp add: startsWith_def)
next
  case (Cons c cs)
  then show ?case by (cases s) (auto simp: startsWith_def)
qed

lemma begins_with_append: "begins_with p s \<longleftrightarrow> (\<exists>rest. s = p @ rest)"
proof (induction p arbitrary: s)
  case Nil
  show ?case by simp
next
  case (Cons c cs)
  then show ?case by (cases s) auto
qed

lemma backslash_to_slash_spec: "backslash_to_slash s = forward_slashes s"
  by (induction s) (simp_all add: backslash_to_slash_def)

lemma forward_slashes_no_backslash: "CHR 0x5C \<notin> set (forward_slashes s)"
  by (induction s) auto

lemma rewrite_anchor_empty:
  "attr el ''href'' = Some [] \<Longrightarrow> rewrite_anchor L vis domain startUrl archivePath currentUrl localPagePath el = el"
  by (simp add: rewrite_anchor_def)

lemma rewrite_anchor_no_href:
  "attr el ''href'' = None \<Longrightarrow> rewrite_anchor L vis domain startUrl archivePath currentUrl localPagePath el = el"
  by (simp add: rewrite_anchor_def)

text \<open>The anchors that pass 2 skips: a bare fragment, a mail address, a telephone number.\<close>

lemma rewrite_anchor_skipped:
  assumes "attr el ''href'' = Some href"
    and "begins_with ''#'' href \<or> begins_with ''mailto:'' href \<or> begins_with ''tel:'' href"
  shows "rewrite_anchor L vis domain startUrl archivePath currentUrl localPagePath el = el"
  using assms by (auto simp: rewrite_anchor_def startsWith_spec)

lemma rewrite_anchor_rewrites:
  assumes "attr el ''href'' = Some href"
    and "href \<noteq> []"
    and "\<not> begins_with ''#'' href"
    and "\<not> begins_with ''mailto:'' href"
    and "\<not> begins_with ''tel:'' href"
    and "new_URL L href (Some currentUrl) = Some u"
    and "new_URL L (strip_fragment (url_href u)) None = Some a"
    and "getLocalFilePathForPage L (strip_fragment (url_href u)) startUrl archivePath = Inr target"
  shows "rewrite_anchor L vis domain startUrl archivePath currentUrl localPagePath el =
           set_attr el ''href''
             (if url_hostname a = domain \<and> strip_fragment (url_href u) \<in> set vis
              then (let r = forward_slashes (path_relative L (path_dirname L localPagePath) target)
                    in if r = [] then ''./index.html'' else r)
              else strip_fragment (url_href u))"
  using assms
  by (simp add: rewrite_anchor_def split_first_fragment backslash_to_slash_spec startsWith_spec Let_def)

lemma pass2_files:
  assumes "pass2 L W vis domain su ap pages out = Inr files"
    and "j < length pages"
  shows "\<exists>lp. getLocalFilePathForPage L (fst (pages ! j)) su ap = Inr lp
            \<and> length files = length out + length pages
            \<and> take (length out) files = out
            \<and> files ! (length out + j) =
                (lp, Html (rewrite_page L vis domain su ap (fst (pages ! j)) lp (snd (pages ! j))))"
  using assms
proof (induction pages arbitrary: out j)
  case Nil
  then show ?case by simp
next
  case (Cons p pages)
  obtain cu doc where p: "p = (cu, doc)" by (cases p)
  from Cons.prems(1) p obtain lp where
    lp: "getLocalFilePathForPage L cu su ap = Inr lp"
    and rest: "pass2 L W vis domain su ap pages
                 (out @ [(lp, Html (rewrite_page L vis domain su ap cu lp doc))]) = Inr files"
    by (auto simp: Let_def split: sum.splits if_splits)
  let ?out = "out @ [(lp, Html (rewrite_page L vis domain su ap cu lp doc))]"
  have keep: "length files = length ?out + length pages \<and> take (length ?out) files = ?out"
  proof (cases pages)
    case Nil
    with rest show ?thesis by simp
  next
    case (Cons q qs)
    then have "0 < length pages" by simp
    from Cons.IH [OF rest this] show ?thesis by blast
  qed
  show ?case
  proof (cases j)
    case 0
    from keep have "files ! length out = ?out ! length out"
      by (metis length_append_singleton lessI nth_take)
    with 0 p lp keep show ?thesis
      by (auto simp: take_Suc_conv_app_nth dest: arg_cong [where f = "take (length out)"])
  next
    case (Suc j')
    with Cons.prems(2) have "j' < length pages" by simp
    from Cons.IH [OF rest this] Suc keep show ?thesis
      by (auto dest: arg_cong [where f = "take (length out)"])
  qed
qed

lemma length_rewrite_page:
  "length (rewrite_page L vis domain su ap cu lp doc) = length doc"
  by (simp add: rewrite_page_def)

lemma nth_rewrite_page:
  "i < length doc \<Longrightarrow> sel (doc ! i) = Anchor \<Longrightarrow>
   rewrite_page L vis domain su ap cu lp doc ! i = rewrite_anchor L vis domain su ap cu lp (doc ! i)"
  by (simp add: rewrite_page_def)

text \<open>
  Claim C2, amended. In pass 2, for every anchor of every stored page whose href does not
  start with \<open>#\<close>, \<open>mailto:\<close> or \<open>tel:\<close> and resolves against the page URL: when the
  href is the empty string, the anchor is written as it is; otherwise, if the resolved URL
  without its fragment has the crawl domain's host name and is in the visited set, the
  href in the written file is the relative path from the page's directory to the target's
  local path, with every backslash written as a slash and \<open>./index.html\<close> in place of an
  empty path, and if not, it is the resolved URL without its fragment. The written
  document has the elements of the stored one, position by position.
\<close>

theorem anchors_rewritten:
  assumes run: "pass2 L W vis domain su ap pages [] = Inr files"
    and j: "j < length pages" and page: "pages ! j = (currentUrl, doc)"
    and i: "i < length doc" and anc: "sel (doc ! i) = Anchor"
    and href: "attr (doc ! i) ''href'' = Some href"
    and nofrag: "\<not> begins_with ''#'' href"
    and nomail: "\<not> begins_with ''mailto:'' href"
    and notel: "\<not> begins_with ''tel:'' href"
    and res: "new_URL L href (Some currentUrl) = Some u"
    and abs: "new_URL L (strip_fragment (url_href u)) None = Some a"
    and tgt: "getLocalFilePathForPage L (strip_fragment (url_href u)) su ap = Inr target"
  shows "\<exists>lp doc'. files ! j = (lp, Html doc')
           \<and> getLocalFilePathForPage L currentUrl su ap = Inr lp
           \<and> length doc' = length doc
           \<and> doc' ! i =
               (if href = [] then doc ! i
                else set_attr (doc ! i) ''href''
                  (if url_hostname a = domain \<and> strip_fragment (url_href u) \<in> set vis
                   then (let r = forward_slashes (path_relative L (path_dirname L lp) target)
                         in if r = [] then ''./index.html'' else r)
                   else strip_fragment (url_href u)))"
proof -
  from pass2_files [OF run j] page obtain lp where
    lp: "getLocalFilePathForPage L currentUrl su ap = Inr lp"
    and fl: "files ! j = (lp, Html (rewrite_page L vis domain su ap currentUrl lp doc))"
    by auto
  let ?doc' = "rewrite_page L vis domain su ap currentUrl lp doc"
  have nth: "?doc' ! i = rewrite_anchor L vis domain su ap currentUrl lp (doc ! i)"
    using i anc by (rule nth_rewrite_page)
  have "?doc' ! i =
          (if href = [] then doc ! i
           else set_attr (doc ! i) ''href''
             (if url_hostname a = domain \<and> strip_fragment (url_href u) \<in> set vis
              then (let r = forward_slashes (path_relative L (path_dirname L lp) target)
                    in if r = [] then ''./index.html'' else r)
              else strip_fragment (url_href u)))"
  proof (cases "href = []")
    case True
    with href have "attr (doc ! i) ''href'' = Some []" by simp
    from rewrite_anchor_empty [OF this] nth True show ?thesis by simp
  next
    case False
    from rewrite_anchor_rewrites [OF href False nofrag nomail notel res abs tgt] nth False
    show ?thesis by simp
  qed
  then show ?thesis
    using lp fl length_rewrite_page by blast
qed

theorem anchors_rewritten_witness:
  "\<exists>files. pass2 demo_lib (demo_world small_site) [''http://a.io/'', ''http://a.io/x''] ''a.io''
              ''http://a.io/'' demo_archive small_site [] = Inr files
     \<and> (\<exists>doc'. files ! 0 = (''/app/archives/a.io/2025-09-14T10-00-00.000Z/index.html'', Html doc')
           \<and> doc' ! 0 = anchor ''x/index.html''
           \<and> doc' ! 1 = anchor ''http://b.io/''
           \<and> doc' ! 3 = anchor [])
     \<and> (\<exists>doc'. files ! 1 = (''/app/archives/a.io/2025-09-14T10-00-00.000Z/x/index.html'', Html doc')
           \<and> doc' ! 0 = anchor ''../index.html''
           \<and> doc' ! 1 = anchor [])"
proof -
  let ?W = "demo_world small_site"
  let ?vis = "[''http://a.io/'', ''http://a.io/x'']"
  let ?S = "''http://a.io/''"
  let ?X = "''http://a.io/x''"
  let ?uS = "mk_url ''http://a.io/'' ''a.io'' ''/''"
  let ?uX = "mk_url ''http://a.io/x'' ''a.io'' ''/x''"
  let ?uB = "mk_url ''http://b.io/'' ''b.io'' ''/''"
  let ?uT = "mk_url ''http://a.io/#top'' ''a.io'' ''/''"
  let ?lpS = "''/app/archives/a.io/2025-09-14T10-00-00.000Z/index.html''"
  let ?lpX = "''/app/archives/a.io/2025-09-14T10-00-00.000Z/x/index.html''"
  let ?doc = "[anchor ''/x'', anchor ''http://b.io/'', anchor ''http://['', anchor []]"
  let ?docX = "[anchor ''/#top'', anchor []]"
  have "case pass2 demo_lib ?W ?vis ''a.io'' ?S demo_archive small_site [] of
          Inl e \<Rightarrow> False | Inr files \<Rightarrow> True"
    by code_simp
  then obtain files where run: "pass2 demo_lib ?W ?vis ''a.io'' ?S demo_archive small_site [] = Inr files"
    by (auto split: sum.splits)
  have j0: "0 < length small_site" and j1: "1 < length small_site" by code_simp+
  have page0: "small_site ! 0 = (?S, ?doc)" by code_simp
  have page1: "small_site ! 1 = (?X, ?docX)" by code_simp
  have lp0: "getLocalFilePathForPage demo_lib ?S ?S demo_archive = Inr ?lpS" by code_simp
  have lp1: "getLocalFilePathForPage demo_lib ?X ?S demo_archive = Inr ?lpX" by code_simp
  \<comment> \<open>start page, first anchor: an archived page\<close>
  have i0: "0 < length ?doc" by simp
  have a0: "sel (?doc ! 0) = Anchor" by code_simp
  have h0: "attr (?doc ! 0) ''href'' = Some ''/x''" by code_simp
  have n0: "\<not> begins_with ''#'' ''/x''" "\<not> begins_with ''mailto:'' ''/x''"
    "\<not> begins_with ''tel:'' ''/x''" by code_simp+
  have r0: "new_URL demo_lib ''/x'' (Some ?S) = Some ?uX" by code_simp
  have b0: "new_URL demo_lib (strip_fragment (url_href ?uX)) None = Some ?uX" by code_simp
  have t0: "getLocalFilePathForPage demo_lib (strip_fragment (url_href ?uX)) ?S demo_archive = Inr ?lpX"
    by code_simp
  have v0: "(if ''/x'' = [] then ?doc ! 0
             else set_attr (?doc ! 0) ''href''
               (if url_hostname ?uX = ''a.io'' \<and> strip_fragment (url_href ?uX) \<in> set ?vis
                then (let r = forward_slashes (path_relative demo_lib (path_dirname demo_lib ?lpS) ?lpX)
                      in if r = [] then ''./index.html'' else r)
                else strip_fragment (url_href ?uX)))
            = anchor ''x/index.html''" by code_simp
  \<comment> \<open>start page, second anchor: another host\<close>
  have i1: "1 < length ?doc" by simp
  have a1: "sel (?doc ! 1) = Anchor" by code_simp
  have h1: "attr (?doc ! 1) ''href'' = Some ''http://b.io/''" by code_simp
  have n1: "\<not> begins_with ''#'' ''http://b.io/''"
    "\<not> begins_with ''mailto:'' ''http://b.io/''" "\<not> begins_with ''tel:'' ''http://b.io/''" by code_simp+
  have r1: "new_URL demo_lib ''http://b.io/'' (Some ?S) = Some ?uB" by code_simp
  have b1: "new_URL demo_lib (strip_fragment (url_href ?uB)) None = Some ?uB" by code_simp
  have t1: "getLocalFilePathForPage demo_lib (strip_fragment (url_href ?uB)) ?S demo_archive = Inr ?lpS"
    by code_simp
  have v1: "(if ''http://b.io/'' = [] then ?doc ! 1
             else set_attr (?doc ! 1) ''href''
               (if url_hostname ?uB = ''a.io'' \<and> strip_fragment (url_href ?uB) \<in> set ?vis
                then (let r = forward_slashes (path_relative demo_lib (path_dirname demo_lib ?lpS) ?lpS)
                      in if r = [] then ''./index.html'' else r)
                else strip_fragment (url_href ?uB)))
            = anchor ''http://b.io/''" by code_simp
  \<comment> \<open>start page, fourth anchor: an empty href\<close>
  have i3: "3 < length ?doc" by simp
  have a3: "sel (?doc ! 3) = Anchor" by code_simp
  have h3: "attr (?doc ! 3) ''href'' = Some []" by code_simp
  have n3: "\<not> begins_with ''#'' []" "\<not> begins_with ''mailto:'' []" "\<not> begins_with ''tel:'' []"
    by code_simp+
  have r3: "new_URL demo_lib [] (Some ?S) = Some ?uS" by code_simp
  have b3: "new_URL demo_lib (strip_fragment (url_href ?uS)) None = Some ?uS" by code_simp
  have t3: "getLocalFilePathForPage demo_lib (strip_fragment (url_href ?uS)) ?S demo_archive = Inr ?lpS"
    by code_simp
  have v3: "?doc ! 3 = anchor []" by simp
  \<comment> \<open>second page, first anchor: a fragment of the start page\<close>
  have k0: "0 < length ?docX" by simp
  have c0: "sel (?docX ! 0) = Anchor" by code_simp
  have g0: "attr (?docX ! 0) ''href'' = Some ''/#top''" by code_simp
  have m0: "\<not> begins_with ''#'' ''/#top''" "\<not> begins_with ''mailto:'' ''/#top''"
    "\<not> begins_with ''tel:'' ''/#top''" by code_simp+
  have s0: "new_URL demo_lib ''/#top'' (Some ?X) = Some ?uT" by code_simp
  have f0: "new_URL demo_lib (strip_fragment (url_href ?uT)) None = Some ?uS" by code_simp
  have u0: "getLocalFilePathForPage demo_lib (strip_fragment (url_href ?uT)) ?S demo_archive = Inr ?lpS"
    by code_simp
  have w0: "(if ''/#top'' = [] then ?docX ! 0
             else set_attr (?docX ! 0) ''href''
               (if url_hostname ?uS = ''a.io'' \<and> strip_fragment (url_href ?uT) \<in> set ?vis
                then (let r = forward_slashes (path_relative demo_lib (path_dirname demo_lib ?lpX) ?lpS)
                      in if r = [] then ''./index.html'' else r)
                else strip_fragment (url_href ?uT)))
            = anchor ''../index.html''" by code_simp
  \<comment> \<open>second page, second anchor: an empty href\<close>
  have k1: "1 < length ?docX" by simp
  have c1: "sel (?docX ! 1) = Anchor" by code_simp
  have g1: "attr (?docX ! 1) ''href'' = Some []" by code_simp
  have s1: "new_URL demo_lib [] (Some ?X) = Some ?uX" by code_simp
  have w1: "?docX ! 1 = anchor []" by simp
  from anchors_rewritten [OF run j0 page0 i0 a0 h0 n0 r0 b0 t0] lp0 v0
  obtain d0 where d0: "files ! 0 = (?lpS, Html d0)" "d0 ! 0 = anchor ''x/index.html''" by auto
  from anchors_rewritten [OF run j0 page0 i1 a1 h1 n1 r1 b1 t1] lp0 v1
  obtain d1 where d1: "files ! 0 = (?lpS, Html d1)" "d1 ! 1 = anchor ''http://b.io/''" by auto
  from anchors_rewritten [OF run j0 page0 i3 a3 h3 n3 r3 b3 t3] lp0 v3
  obtain d3 where d3: "files ! 0 = (?lpS, Html d3)" "d3 ! 3 = anchor []" by auto
  from anchors_rewritten [OF run j1 page1 k0 c0 g0 m0 s0 f0 u0] lp1 w0
  obtain e0 where e0: "files ! 1 = (?lpX, Html e0)" "e0 ! 0 = anchor ''../index.html''" by auto
  from anchors_rewritten [OF run j1 page1 k1 c1 g1 n3 s1 b0 t0] lp1 w1
  obtain e1 where e1: "files ! 1 = (?lpX, Html e1)" "e1 ! 1 = anchor []" by auto
  from d0 d1 d3 have "d1 = d0" "d3 = d0" by simp_all
  moreover from e0 e1 have "e1 = e0" by simp
  ultimately show ?thesis using run d0 d1 d3 e0 e1 by blast
qed

text \<open>
  Claim C2 as stated fails for an anchor whose href is the empty string: it does not
  start with \<open>#\<close>, \<open>mailto:\<close> or \<open>tel:\<close>, it resolves (to the page itself), the
  page is on the crawl domain and visited, yet the guard \<^verbatim>\<open>href && ...\<close> of line 187
  leaves the href as it is instead of writing the relative path \<open>index.html\<close>.
\<close>

theorem empty_href_counterexample:
  "attr (anchor []) ''href'' = Some []
   \<and> \<not> begins_with ''#'' [] \<and> \<not> begins_with ''mailto:'' [] \<and> \<not> begins_with ''tel:'' []
   \<and> new_URL demo_lib [] (Some ''http://a.io/'') = Some (mk_url ''http://a.io/'' ''a.io'' ''/'')
   \<and> hostname_of demo_lib (strip_fragment ''http://a.io/'') = Some ''a.io''
   \<and> strip_fragment ''http://a.io/'' \<in> set [''http://a.io/'']
   \<and> path_relative demo_lib (path_dirname demo_lib ''/app/archives/a.io/2025-09-14T10-00-00.000Z/index.html'')
         ''/app/archives/a.io/2025-09-14T10-00-00.000Z/index.html'' = ''index.html''
   \<and> attr (rewrite_anchor demo_lib [''http://a.io/''] ''a.io'' ''http://a.io/'' demo_archive ''http://a.io/''
               ''/app/archives/a.io/2025-09-14T10-00-00.000Z/index.html'' (anchor [])) ''href'' = Some []"
  by code_simp

subsection \<open>The frontier loop and repeated fetches\<close>

text \<open>
  Claim C1 says that no URL is passed to the page fetcher twice in a session, failed URLs
  included. The loop keeps no record of a URL whose fetch failed: it is neither in
  \<open>visited\<close> nor, once dequeued, in \<open>queue\<close>, so the test of line 171 lets a later page
  that links to it enqueue it again. On the site with the dead link \<open>/x\<close> the fetch log
  of the session is \<open>/\<close>, \<open>/x\<close>, \<open>/y\<close>, \<open>/x\<close>: the failed URL is fetched a second time.
\<close>

theorem failed_url_fetched_twice:
  "case startCrawl demo_lib (demo_world broken_link_site) ''http://a.io/'' 10 of
     Inl e \<Rightarrow> False
   | Inr r \<Rightarrow> session_fetchLog r = [''http://a.io/'', ''http://a.io/x'', ''http://a.io/y'', ''http://a.io/x'']
            \<and> session_visited r = [''http://a.io/'', ''http://a.io/y'']"
  by code_simp

subsection \<open>Malformed hrefs\<close>

lemma discover_anchor_malformed:
  "attr el ''href'' = Some h \<Longrightarrow> malformed L url h \<Longrightarrow> discover_anchor L url d el = None"
  by (auto simp: discover_anchor_def discover_link_def malformed_def Let_def split: option.splits)

lemma discover_links_skip:
  assumes "attr el ''href'' = Some h" and "malformed L url h"
  shows "discover_links L url d (xs @ el # ys) = discover_links L url d (xs @ ys)"
  using discover_anchor_malformed [OF assms, of d]
  by (simp add: discover_links_def List.map_filter_def)

lemma rewrite_anchor_malformed:
  "attr el ''href'' = Some h \<Longrightarrow> malformed L url h \<Longrightarrow>
   rewrite_anchor L vis dmn su ap url lp el = el"
  by (auto simp: rewrite_anchor_def malformed_def Let_def split: option.splits)

lemma rewrite_page_skip:
  assumes "attr el ''href'' = Some h" and "malformed L url h"
  shows "rewrite_page L vis dmn su ap url lp (xs @ el # ys) =
           rewrite_page L vis dmn su ap url lp xs @ el # rewrite_page L vis dmn su ap url lp ys"
  using rewrite_anchor_malformed [OF assms, of vis dmn su ap lp]
  by (simp add: rewrite_page_def)

lemma plan_asset_anchor: "sel el = Anchor \<Longrightarrow> plan_asset L url ap spi c el = Inr (c, None)"
  by (simp add: plan_asset_def)

lemma plan_assets_anchor:
  assumes "sel el = Anchor"
  shows "isl (plan_assets L url ap spi c (xs @ el # ys)) = isl (plan_assets L url ap spi c (xs @ ys))"
proof (induction xs arbitrary: c)
  case Nil
  show ?case
    by (simp add: plan_asset_anchor [OF assms] split: sum.splits)
next
  case (Cons x xs)
  show ?case
  proof (cases "plan_asset L url ap spi c x")
    case (Inl e)
    then show ?thesis by simp
  next
    case (Inr p)
    obtain c' j where "p = (c', j)" by (cases p)
    with Inr Cons [of c'] show ?thesis by (auto split: sum.splits)
  qed
qed

text \<open>Whether a page fetch succeeds, and which links it reports.\<close>

lemma fetch_links:
  "map_option discoveredLinks (fetchPageAndAssets L W n url ap su) =
     (case get_page W n url of
        None \<Rightarrow> None
      | Some doc \<Rightarrow>
         (case new_URL L su None of
            None \<Rightarrow> None
          | Some s0 \<Rightarrow>
             (case getLocalFilePathForPage L url su ap of
                Inl e \<Rightarrow> None
              | Inr lp \<Rightarrow>
                 (case new_URL L url None of
                    None \<Rightarrow> None
                  | Some pu \<Rightarrow>
                     if isl (plan_assets L url ap
                               (sanitize_id (if strip_slashes (url_pathname pu) = [] then ''index''
                                             else strip_slashes (url_pathname pu)))
                               \<lparr>css = 0, img = 0, js = 0\<rparr> doc)
                     then None
                     else Some (Set_from (discover_links L url (url_hostname s0) doc))))))"
  by (auto simp: fetchPageAndAssets_def Let_def split: option.splits sum.splits)

lemma fetch_skip:
  assumes "sel el = Anchor" and "attr el ''href'' = Some h" and "malformed L url h"
    and "get_page W n url = Some (xs @ el # ys)"
  shows "map_option discoveredLinks (fetchPageAndAssets L W n url ap su) =
         map_option discoveredLinks (fetchPageAndAssets L (with_page W n url (xs @ ys)) n url ap su)"
proof -
  have "get_page (with_page W n url (xs @ ys)) n url = Some (xs @ ys)"
    by (simp add: with_page_def)
  with assms(4) show ?thesis
    unfolding fetch_links
    by (simp add: discover_links_skip [OF assms(2,3)] plan_assets_anchor [OF assms(1)]
             cong: option.case_cong sum.case_cong if_cong)
qed

lemma fetch_elsewhere:
  assumes "n' \<noteq> n \<or> u' \<noteq> url"
  shows "fetchPageAndAssets L (with_page W n url doc) n' u' ap su = fetchPageAndAssets L W n' u' ap su"
proof -
  have a: "get_page (with_page W n url doc) n' u' = get_page W n' u'"
    using assms by (auto simp: with_page_def)
  have "settle_asset L (with_page W n url doc) n' lp i e j = settle_asset L W n' lp i e j" for lp i e j
    by (simp add: settle_asset_def with_page_def split: option.splits)
  then have b: "settle_assets L (with_page W n url doc) n' lp d js = settle_assets L W n' lp d js" for lp d js
    by (simp add: settle_assets_def)
  show ?thesis
    by (simp add: fetchPageAndAssets_def a b Let_def cong: option.case_cong sum.case_cong)
qed

lemma fetch_skip_all:
  assumes "sel el = Anchor" and "attr el ''href'' = Some h" and "malformed L url h"
    and "get_page W n url = Some (xs @ el # ys)"
  shows "map_option discoveredLinks (fetchPageAndAssets L W n' u' ap su) =
         map_option discoveredLinks (fetchPageAndAssets L (with_page W n url (xs @ ys)) n' u' ap su)"
proof (cases "n' = n \<and> u' = url")
  case True
  with fetch_skip [OF assms] show ?thesis by simp
next
  case False
  then have "n' \<noteq> n \<or> u' \<noteq> url" by simp
  from fetch_elsewhere [OF this] show ?thesis by simp
qed

lemma map_fst_map_set:
  "map fst m = map fst m' \<Longrightarrow> map fst (map_set k v m) = map fst (map_set k v' m')"
proof (induction m arbitrary: m')
  case Nil
  then show ?case by simp
next
  case (Cons p m)
  then obtain p' m'' where m': "m' = p' # m''" by (cases m') auto
  with Cons.prems have "fst p = fst p'" "map fst m = map fst m''" by simp_all
  with Cons.IH [of m''] m' show ?case
    by (cases p; cases p') auto
qed

lemma loop_body_sim:
  assumes agree: "\<And>n u. map_option discoveredLinks (fetchPageAndAssets L W n u ap su) =
                        map_option discoveredLinks (fetchPageAndAssets L W' n u ap su)"
    and q: "queue s = queue s'" and v: "visited s = visited s'" and f: "fetchLog s = fetchLog s'"
    and p: "map fst (pageDataMap s) = map fst (pageDataMap s')"
  shows "queue (loop_body L W ap su s) = queue (loop_body L W' ap su s')
       \<and> visited (loop_body L W ap su s) = visited (loop_body L W' ap su s')
       \<and> fetchLog (loop_body L W ap su s) = fetchLog (loop_body L W' ap su s')
       \<and> map fst (pageDataMap (loop_body L W ap su s)) = map fst (pageDataMap (loop_body L W' ap su s'))"
proof (cases "queue s")
  case Nil
  with q v f p show ?thesis by (simp add: loop_body_def)
next
  case (Cons c rest)
  with q have q': "queue s' = c # rest" by simp
  show ?thesis
  proof (cases "c \<in> set (visited s)")
    case True
    with Cons q' v f p show ?thesis by (simp add: loop_body_def)
  next
    case False
    note ag = agree [of "length (fetchLog s)" c]
    show ?thesis
    proof (cases "fetchPageAndAssets L W (length (fetchLog s)) c ap su")
      case None
      with ag have "fetchPageAndAssets L W' (length (fetchLog s')) c ap su = None"
        using f by simp
      with None Cons q' False v f p show ?thesis by (simp add: loop_body_def)
    next
      case (Some r)
      with ag f obtain r' where
        r': "fetchPageAndAssets L W' (length (fetchLog s')) c ap su = Some r'"
        and l: "discoveredLinks r' = discoveredLinks r"
        by (cases "fetchPageAndAssets L W' (length (fetchLog s')) c ap su") auto
      from Some r' l Cons q' False v f show ?thesis
        by (simp add: loop_body_def Let_def map_fst_map_set [OF p])
    qed
  qed
qed

lemma crawl_loop_sim:
  assumes agree: "\<And>n u. map_option discoveredLinks (fetchPageAndAssets L W n u ap su) =
                        map_option discoveredLinks (fetchPageAndAssets L W' n u ap su)"
    and "queue s = queue s'" and "visited s = visited s'" and "fetchLog s = fetchLog s'"
    and "map fst (pageDataMap s) = map fst (pageDataMap s')"
  shows "visited (crawl_loop L W ap su m s) = visited (crawl_loop L W' ap su m s')
       \<and> fetchLog (crawl_loop L W ap su m s) = fetchLog (crawl_loop L W' ap su m s')
       \<and> map fst (pageDataMap (crawl_loop L W ap su m s)) = map fst (pageDataMap (crawl_loop L W' ap su m s'))"
  using assms
proof (induction L W ap su m s arbitrary: s' rule: crawl_loop.induct)
  case (1 L W ap su m s)
  have cond: "loop_cond m s' = loop_cond m s"
    using "1.prems" by (simp add: loop_cond_def)
  show ?case
  proof (cases "loop_cond m s")
    case False
    with cond "1.prems" show ?thesis
      by (simp add: crawl_loop.simps [of L W ap su m s] crawl_loop.simps [of L W' ap su m s'])
  next
    case True
    from loop_body_sim [of L W ap su W' s s', OF "1.prems"]
    have rel: "queue (loop_body L W ap su s) = queue (loop_body L W' ap su s')"
      "visited (loop_body L W ap su s) = visited (loop_body L W' ap su s')"
      "fetchLog (loop_body L W ap su s) = fetchLog (loop_body L W' ap su s')"
      "map fst (pageDataMap (loop_body L W ap su s)) = map fst (pageDataMap (loop_body L W' ap su s'))"
      by simp_all
    from "1.IH" [OF True "1.prems"(1) rel] True cond show ?thesis
      by (simp add: crawl_loop.simps [of L W ap su m s] crawl_loop.simps [of L W' ap su m s'])
  qed
qed

lemma pass2_sim:
  assumes "fs_ensureDir W' = fs_ensureDir W" and "fs_writeFile W' = fs_writeFile W"
    and "map fst pages = map fst pages'" and "map fst out = map fst out'"
  shows "map_sum id (map fst) (pass2 L W vis d su ap pages out) =
         map_sum id (map fst) (pass2 L W' vis d su ap pages' out')"
  using assms(3,4)
proof (induction pages arbitrary: pages' out out')
  case Nil
  then show ?case by simp
next
  case (Cons p pages)
  then obtain p' ps' where ps': "pages' = p' # ps'" by (cases pages') auto
  obtain cu doc where p: "p = (cu, doc)" by (cases p)
  obtain cu' doc' where p': "p' = (cu', doc')" by (cases p')
  from Cons.prems ps' p p' have cu: "cu' = cu" and rest: "map fst pages = map fst ps'" by simp_all
  show ?case
  proof (cases "getLocalFilePathForPage L cu su ap")
    case (Inl e)
    with ps' p p' cu show ?thesis by simp
  next
    case (Inr lp)
    have "map fst (out @ [(lp, Html (rewrite_page L vis d su ap cu lp doc))]) =
          map fst (out' @ [(lp, Html (rewrite_page L vis d su ap cu lp doc'))])"
      using Cons.prems(2) by simp
    from Cons.IH [OF rest this] Inr ps' p p' cu assms(1,2) show ?thesis
      by (simp add: Let_def)
  qed
qed

lemma startCrawl_sim:
  assumes agree: "\<And>n u ap. map_option discoveredLinks (fetchPageAndAssets L W n u ap su) =
                        map_option discoveredLinks (fetchPageAndAssets L W' n u ap su)"
    and fs: "fs_ensureDir W' = fs_ensureDir W" "fs_writeFile W' = fs_writeFile W"
    and clk: "clock W' = clock W"
  shows "outcome (startCrawl L W su m) = outcome (startCrawl L W' su m)"
proof (cases "new_URL L su None")
  case None
  then show ?thesis by (simp add: startCrawl_def)
next
  case (Some s0)
  let ?ap = "archive_path L W s0"
  have ap: "archive_path L W' s0 = ?ap"
    by (simp add: archive_path_def clk)
  let ?s = "crawl_loop L W ?ap su m (initial_state su)"
  let ?s' = "crawl_loop L W' ?ap su m (initial_state su)"
  have sim: "visited ?s = visited ?s' \<and> fetchLog ?s = fetchLog ?s'
           \<and> map fst (pageDataMap ?s) = map fst (pageDataMap ?s')"
    by (rule crawl_loop_sim) (simp_all add: agree)
  have p2: "map_sum id (map fst) (pass2 L W (visited ?s) (url_hostname s0) su ?ap (pageDataMap ?s) []) =
            map_sum id (map fst) (pass2 L W' (visited ?s) (url_hostname s0) su ?ap (pageDataMap ?s') [])"
    by (rule pass2_sim) (simp_all add: fs sim)
  have mm: "make_manifest L W' su ?ap (visited ?s) = make_manifest L W su ?ap (visited ?s)"
    by (simp add: make_manifest_def clk cong: sum.case_cong)
  show ?thesis
  proof (cases "fs_ensureDir W ?ap")
    case False
    with Some ap fs show ?thesis by (simp add: startCrawl_def Let_def)
  next
    case True
    show ?thesis
    proof (cases "pass2 L W (visited ?s) (url_hostname s0) su ?ap (pageDataMap ?s) []")
      case (Inl e)
      with p2 have "pass2 L W' (visited ?s) (url_hostname s0) su ?ap (pageDataMap ?s') [] = Inl e"
        by (cases "pass2 L W' (visited ?s) (url_hostname s0) su ?ap (pageDataMap ?s') []") simp_all
      with Inl Some ap fs True sim show ?thesis
        by (simp add: startCrawl_def Let_def outcome_def)
    next
      case (Inr files)
      with p2 obtain files' where
        f': "pass2 L W' (visited ?s) (url_hostname s0) su ?ap (pageDataMap ?s') [] = Inr files'"
        and fst: "map fst files' = map fst files"
        by (cases "pass2 L W' (visited ?s) (url_hostname s0) su ?ap (pageDataMap ?s') []") simp_all
      from Inr f' fst Some ap fs True sim mm show ?thesis
        by (simp add: startCrawl_def Let_def outcome_def split: sum.splits)
    qed
  qed
qed

lemma plan_assets_length:
  "plan_assets L url ap spi c doc = Inr jobs \<Longrightarrow> length jobs = length doc"
proof (induction doc arbitrary: c jobs)
  case Nil
  then show ?case by simp
next
  case (Cons el doc)
  then show ?case by (auto split: sum.splits prod.splits)
qed

lemma plan_assets_nth_anchor:
  "plan_assets L url ap spi c doc = Inr jobs \<Longrightarrow> i < length doc \<Longrightarrow> sel (doc ! i) = Anchor
   \<Longrightarrow> jobs ! i = None"
proof (induction doc arbitrary: c jobs i)
  case Nil
  then show ?case by simp
next
  case (Cons el doc)
  from Cons.prems(1) obtain c' j js where
    head: "plan_asset L url ap spi c el = Inr (c', j)"
    and tail: "plan_assets L url ap spi c' doc = Inr js"
    and jobs: "jobs = j # js"
    by (auto split: sum.splits prod.splits)
  show ?case
  proof (cases i)
    case 0
    with Cons.prems(3) head jobs show ?thesis by (simp add: plan_asset_anchor)
  next
    case (Suc i')
    with Cons.prems(2,3) Cons.IH [OF tail, of i'] jobs show ?thesis by simp
  qed
qed

lemma settle_assets_nth:
  assumes "length jobs = length doc" and "i < length doc"
  shows "settle_assets L W n lp doc jobs ! i = settle_asset L W n lp i (doc ! i) (jobs ! i)"
  using assms by (simp add: settle_assets_def)

lemma fetch_keeps_anchor:
  assumes "fetchPageAndAssets L W n url ap su = Some r"
    and "get_page W n url = Some doc"
    and "i < length doc" and "sel (doc ! i) = Anchor"
  shows "length (page_doc r) = length doc \<and> page_doc r ! i = doc ! i"
proof -
  from assms(1,2) obtain lp spi jobs where
    plan: "plan_assets L url ap spi \<lparr>css = 0, img = 0, js = 0\<rparr> doc = Inr jobs"
    and doc: "page_doc r = settle_assets L W n lp doc jobs"
    by (auto simp: fetchPageAndAssets_def Let_def split: option.splits sum.splits)
  have len: "length jobs = length doc" using plan by (rule plan_assets_length)
  have "jobs ! i = None" using plan assms(3,4) by (rule plan_assets_nth_anchor)
  with settle_assets_nth [OF len assms(3), of L W n lp] doc len show ?thesis
    by (simp add: settle_asset_def settle_assets_def)
qed

text \<open>
  Claim C8. Let an anchor of a page have an href whose resolution against the page URL
  throws. Then link discovery on the page gives the links of the page without that anchor;
  pass 2 leaves the anchor as it is, in the document as fetched and in the document as
  stored after the asset downloads, and rewrites the elements before and after it as it
  would without it; the page fetch succeeds or fails, and reports the same links, as for
  the page without the anchor; and the session ends with the same error, or with the same
  visited set, fetch log and written paths, as the session in which that page request is
  answered with the page without the anchor.
\<close>

theorem malformed_href_skipped:
  assumes anc: "sel el = Anchor" and href: "attr el ''href'' = Some h"
    and bad: "malformed L url h"
    and page: "get_page W n url = Some (xs @ el # ys)"
  shows "discover_links L url d (xs @ el # ys) = discover_links L url d (xs @ ys)
       \<and> rewrite_page L vis dmn su ap url lp (xs @ el # ys)
           = rewrite_page L vis dmn su ap url lp xs @ el # rewrite_page L vis dmn su ap url lp ys
       \<and> map_option discoveredLinks (fetchPageAndAssets L W n url ap su)
           = map_option discoveredLinks (fetchPageAndAssets L (with_page W n url (xs @ ys)) n url ap su)
       \<and> (case fetchPageAndAssets L W n url ap su of
             None \<Rightarrow> True
           | Some r \<Rightarrow> rewrite_page L vis dmn su ap url lp (page_doc r) ! length xs = el)
       \<and> outcome (startCrawl L W su m) = outcome (startCrawl L (with_page W n url (xs @ ys)) su m)"
proof -
  have a: "discover_links L url d (xs @ el # ys) = discover_links L url d (xs @ ys)"
    using href bad by (rule discover_links_skip)
  have b: "rewrite_page L vis dmn su ap url lp (xs @ el # ys)
           = rewrite_page L vis dmn su ap url lp xs @ el # rewrite_page L vis dmn su ap url lp ys"
    using href bad by (rule rewrite_page_skip)
  have c: "map_option discoveredLinks (fetchPageAndAssets L W n url ap su)
           = map_option discoveredLinks (fetchPageAndAssets L (with_page W n url (xs @ ys)) n url ap su)"
    using anc href bad page by (rule fetch_skip)
  have d: "rewrite_page L vis dmn su ap url lp (page_doc r) ! length xs = el"
    if r: "fetchPageAndAssets L W n url ap su = Some r" for r
  proof -
    have i: "length xs < length (xs @ el # ys)" by simp
    have s: "sel ((xs @ el # ys) ! length xs) = Anchor" using anc by simp
    from fetch_keeps_anchor [OF r page i s]
    have k: "length xs < length (page_doc r)" "page_doc r ! length xs = el" by simp_all
    then have "rewrite_page L vis dmn su ap url lp (page_doc r) ! length xs
                 = rewrite_anchor L vis dmn su ap url lp el"
      using anc by (simp add: nth_rewrite_page)
    then show ?thesis
      using rewrite_anchor_malformed [OF href bad] by simp
  qed
  have e: "outcome (startCrawl L W su m) = outcome (startCrawl L (with_page W n url (xs @ ys)) su m)"
  proof (rule startCrawl_sim)
    show "map_option discoveredLinks (fetchPageAndAssets L W n' u' ap' su) =
          map_option discoveredLinks (fetchPageAndAssets L (with_page W n url (xs @ ys)) n' u' ap' su)"
      for n' u' ap'
      using anc href bad page by (rule fetch_skip_all)
  qed (simp_all add: with_page_def)
  from a b c d e show ?thesis by (simp split: option.splits)
qed

theorem malformed_href_skipped_witness:
  "malformed demo_lib ''http://a.io/'' ''http://[''
   \<and> get_page (demo_world small_site) 0 ''http://a.io/''
       = Some ([anchor ''/x'', anchor ''http://b.io/''] @ anchor ''http://['' # [anchor []])
   \<and> discover_links demo_lib ''http://a.io/'' ''a.io''
        ([anchor ''/x'', anchor ''http://b.io/''] @ anchor ''http://['' # [anchor []]) = [''http://a.io/x'']
   \<and> discover_links demo_lib ''http://a.io/'' ''a.io'' ([anchor ''/x'', anchor ''http://b.io/''] @ [anchor []])
        = [''http://a.io/x'']
   \<and> outcome (startCrawl demo_lib (demo_world small_site) ''http://a.io/'' 10)
       = Inr ([''http://a.io/'', ''http://a.io/x''], [''http://a.io/'', ''http://a.io/x''],
              [''/app/archives/a.io/2025-09-14T10-00-00.000Z/index.html'',
               ''/app/archives/a.io/2025-09-14T10-00-00.000Z/x/index.html'',
               ''/app/archives/a.io/2025-09-14T10-00-00.000Z/_manifest.json''])
   \<and> outcome (startCrawl demo_lib
        (with_page (demo_world small_site) 0 ''http://a.io/'' ([anchor ''/x'', anchor ''http://b.io/''] @ [anchor []]))
        ''http://a.io/'' 10)
       = Inr ([''http://a.io/'', ''http://a.io/x''], [''http://a.io/'', ''http://a.io/x''],
              [''/app/archives/a.io/2025-09-14T10-00-00.000Z/index.html'',
               ''/app/archives/a.io/2025-09-14T10-00-00.000Z/x/index.html'',
               ''/app/archives/a.io/2025-09-14T10-00-00.000Z/_manifest.json''])"
proof -
  let ?xs = "[anchor ''/x'', anchor ''http://b.io/'']"
  let ?ys = "[anchor []]"
  let ?el = "anchor ''http://[''"
  have anc: "sel ?el = Anchor" by code_simp
  have href: "attr ?el ''href'' = Some ''http://[''" by code_simp
  have bad: "malformed demo_lib ''http://a.io/'' ''http://[''" by code_simp
  have page: "get_page (demo_world small_site) 0 ''http://a.io/'' = Some (?xs @ ?el # ?ys)" by code_simp
  have links: "discover_links demo_lib ''http://a.io/'' ''a.io'' (?xs @ ?ys) = [''http://a.io/x'']"
    by code_simp
  have out: "outcome (startCrawl demo_lib (demo_world small_site) ''http://a.io/'' 10)
       = Inr ([''http://a.io/'', ''http://a.io/x''], [''http://a.io/'', ''http://a.io/x''],
              [''/app/archives/a.io/2025-09-14T10-00-00.000Z/index.html'',
               ''/app/archives/a.io/2025-09-14T10-00-00.000Z/x/index.html'',
               ''/app/archives/a.io/2025-09-14T10-00-00.000Z/_manifest.json''])"
    by code_simp
  from malformed_href_skipped [OF anc href bad page, of "''a.io''" "[]" "''a.io''" "''http://a.io/''"
         demo_archive "''x''" 10]
  have "discover_links demo_lib ''http://a.io/'' ''a.io'' (?xs @ ?el # ?ys)
          = discover_links demo_lib ''http://a.io/'' ''a.io'' (?xs @ ?ys)"
    and "outcome (startCrawl demo_lib (demo_world small_site) ''http://a.io/'' 10)
          = outcome (startCrawl demo_lib (with_page (demo_world small_site) 0 ''http://a.io/'' (?xs @ ?ys))
               ''http://a.io/'' 10)"
    by simp_all
  with bad page links out show ?thesis by simp
qed

subsection \<open>Asset downloads\<close>

text \<open>
  What holds of asset downloads: a request that fails, or that was never issued, leaves
  its element as it is; whether the page fetch succeeds does not depend on the outcome of
  any download; and each element of the returned document is determined by its own
  request alone.
\<close>

lemma settle_asset_failed:
  "get_asset W n i (job_url jb) = None \<Longrightarrow> settle_asset L W n lp i el (Some jb) = el"
  by (simp add: settle_asset_def)

lemma settle_asset_no_request: "settle_asset L W n lp i el None = el"
  by (simp add: settle_asset_def)

lemma fetch_success_whatever_assets:
  "(fetchPageAndAssets L (W\<lparr>get_asset := g\<rparr>) n url ap su = None)
     = (fetchPageAndAssets L W n url ap su = None)"
proof -
  have "map_option discoveredLinks (fetchPageAndAssets L (W\<lparr>get_asset := g\<rparr>) n url ap su)
          = map_option discoveredLinks (fetchPageAndAssets L W n url ap su)"
    unfolding fetch_links by simp
  then show ?thesis by (metis option.map_disc_iff)
qed

lemma fetch_document_elementwise:
  assumes "fetchPageAndAssets L W n url ap su = Some r"
    and "get_page W n url = Some doc"
  shows "\<exists>lp jobs. length jobs = length doc \<and> length (page_doc r) = length doc
           \<and> (\<forall>i < length doc. page_doc r ! i = settle_asset L W n lp i (doc ! i) (jobs ! i))"
proof -
  from assms obtain lp spi jobs where
    plan: "plan_assets L url ap spi \<lparr>css = 0, img = 0, js = 0\<rparr> doc = Inr jobs"
    and doc: "page_doc r = settle_assets L W n lp doc jobs"
    by (auto simp: fetchPageAndAssets_def Let_def split: option.splits sum.splits)
  have len: "length jobs = length doc" using plan by (rule plan_assets_length)
  with doc have "length (page_doc r) = length doc" by (simp add: settle_assets_def)
  with len doc settle_assets_nth [OF len] show ?thesis by auto
qed

text \<open>
  Claim C7 says that a page fetch succeeds whenever the page document was retrieved and
  parsed. The asset callback resolves an image's or a script's source with
  \<^verbatim>\<open>new URL\<close> outside any inner \<^verbatim>\<open>try\<close> (lines 102, 104 and 108), unlike the
  anchor callback of lines 77-82: a source that is no URL throws into the outer
  \<^verbatim>\<open>catch\<close>, and the fetch of a page that was retrieved and parsed returns
  \<^verbatim>\<open>null\<close>.
\<close>

theorem bad_asset_url_fails_page:
  "get_page (demo_world bad_image_site) 0 ''http://a.io/''
     = Some [\<lparr>sel = Img, attrs = [(''src'', ''http://['')]\<rparr>]
   \<and> fetchPageAndAssets demo_lib (demo_world bad_image_site) 0 ''http://a.io/'' demo_archive ''http://a.io/''
     = None"
  by code_simp

subsection \<open>The session trigger\<close>





end
